theory Spec2Isabelle
  imports Main "HOL-Library.Word"
begin

section \<open>The dangerCheck tool of src/tools.ts\<close>

text \<open>
  The tool receives one string, tests it against eleven regular-expression literals and
  returns the matching risks together with an instruction text. This theory embeds the
  tool twice: as a HOL function over JavaScript strings (\<open>dangerCheck\<close>), and as a run on
  a heap of RegExp objects with a backtracking matcher (\<open>execute\<close>), which may run out of
  fuel or throw. The run is proved to return what the function computes.
\<close>

subsection \<open>JavaScript strings\<close>

text \<open>
  A JavaScript string is a sequence of UTF-16 code units. The regular expressions of the
  tool carry no flag, so they match code unit by code unit, case-sensitively.
\<close>

type_synonym jsstring = "16 word list"

definition ascii :: "string \<Rightarrow> jsstring" where
  "ascii s = map of_char s"

subsection \<open>Regular expressions\<close>

text \<open>
  The atoms that occur in the eleven literals: a single character, the dot, the class
  \<^verbatim>\<open>\s\<close> and a range \<^verbatim>\<open>[a-z]\<close>.
\<close>

datatype atom = Chr "16 word" | Dot | Space | Range "16 word" "16 word"

text \<open>The line terminators of ECMAScript: LF, CR, LS, PS.\<close>

definition isLineTerminator :: "16 word \<Rightarrow> bool" where
  "isLineTerminator u = (u = 0x000A \<or> u = 0x000D \<or> u = 0x2028 \<or> u = 0x2029)"

text \<open>
  The white space of ECMAScript: TAB, VT, FF, the byte order mark and the space
  separators (general category Zs).
\<close>

definition isWhiteSpace :: "16 word \<Rightarrow> bool" where
  "isWhiteSpace u =
     (u = 0x0009 \<or> u = 0x000B \<or> u = 0x000C \<or> u = 0x0020 \<or> u = 0x00A0 \<or> u = 0x1680
      \<or> (0x2000 \<le> u \<and> u \<le> 0x200A) \<or> u = 0x202F \<or> u = 0x205F \<or> u = 0x3000
      \<or> u = 0xFEFF)"

fun atom_matches :: "atom \<Rightarrow> 16 word \<Rightarrow> bool" where
  "atom_matches (Chr c) u = (u = c)"
| "atom_matches Dot u = (\<not> isLineTerminator u)"
| "atom_matches Space u = (isWhiteSpace u \<or> isLineTerminator u)"
| "atom_matches (Range lo hi) u = (lo \<le> u \<and> u \<le> hi)"

text \<open>
  The pattern syntax: \<open>Seq\<close> is juxtaposition, \<open>Alt\<close> is \<^verbatim>\<open>|\<close>, and
  \<open>Star\<close>, \<open>Plus\<close>, \<open>Opt\<close> are the quantifiers \<^verbatim>\<open>*\<close>, \<^verbatim>\<open>+\<close>, \<^verbatim>\<open>?\<close>.
  \<open>Empty\<close> matches the empty string and \<open>Fail\<close> matches nothing.
\<close>

datatype regex =
    Fail
  | Empty
  | Atom atom
  | Seq regex regex
  | Alt regex regex
  | Star regex
  | Plus regex
  | Opt regex

text \<open>The strings a pattern matches as a whole.\<close>

definition conc :: "jsstring set \<Rightarrow> jsstring set \<Rightarrow> jsstring set" where
  "conc A B = {u @ v | u v. u \<in> A \<and> v \<in> B}"

inductive_set star :: "jsstring set \<Rightarrow> jsstring set" for A :: "jsstring set" where
  star_nil: "[] \<in> star A"
| star_app: "u \<in> A \<Longrightarrow> v \<in> star A \<Longrightarrow> u @ v \<in> star A"

fun lang :: "regex \<Rightarrow> jsstring set" where
  "lang Fail = {}"
| "lang Empty = {[]}"
| "lang (Atom a) = {[u] | u. atom_matches a u}"
| "lang (Seq r s) = conc (lang r) (lang s)"
| "lang (Alt r s) = lang r \<union> lang s"
| "lang (Star r) = star (lang r)"
| "lang (Plus r) = conc (lang r) (star (lang r))"
| "lang (Opt r) = insert [] (lang r)"

text \<open>
  What \<^verbatim>\<open>RegExp.prototype.test\<close> decides for a pattern without flags, anchors,
  look-around or back references: some substring of the input is matched by the pattern.
\<close>

definition matches_somewhere :: "regex \<Rightarrow> jsstring \<Rightarrow> bool" where
  "matches_somewhere r s = (\<exists>pre m post. s = pre @ m @ post \<and> m \<in> lang r)"

subsection \<open>An executable matcher\<close>

fun nullable :: "regex \<Rightarrow> bool" where
  "nullable Fail = False"
| "nullable Empty = True"
| "nullable (Atom a) = False"
| "nullable (Seq r s) = (nullable r \<and> nullable s)"
| "nullable (Alt r s) = (nullable r \<or> nullable s)"
| "nullable (Star r) = True"
| "nullable (Plus r) = nullable r"
| "nullable (Opt r) = True"

text \<open>Sequence and alternative that drop a failed or empty part.\<close>

fun seq :: "regex \<Rightarrow> regex \<Rightarrow> regex" where
  "seq Fail s = Fail"
| "seq Empty s = s"
| "seq r s = Seq r s"

fun alt :: "regex \<Rightarrow> regex \<Rightarrow> regex" where
  "alt Fail s = s"
| "alt r Fail = r"
| "alt r s = Alt r s"

text \<open>What is left of a pattern once it has consumed the code unit \<open>u\<close>.\<close>

fun deriv :: "16 word \<Rightarrow> regex \<Rightarrow> regex" where
  "deriv u Fail = Fail"
| "deriv u Empty = Fail"
| "deriv u (Atom a) = (if atom_matches a u then Empty else Fail)"
| "deriv u (Seq r s) =
     (if nullable r then alt (seq (deriv u r) s) (deriv u s) else seq (deriv u r) s)"
| "deriv u (Alt r s) = alt (deriv u r) (deriv u s)"
| "deriv u (Star r) = seq (deriv u r) (Star r)"
| "deriv u (Plus r) = seq (deriv u r) (Star r)"
| "deriv u (Opt r) = deriv u r"

text \<open>A match that starts at the first code unit of the string.\<close>

fun match_here :: "regex \<Rightarrow> jsstring \<Rightarrow> bool" where
  "match_here r [] = nullable r"
| "match_here r (u # us) = (if nullable r then True else match_here (deriv u r) us)"

text \<open>
  \<^verbatim>\<open>pattern.test(command)\<close> on a pattern without the flags g and y: the match is
  tried at every start index from 0 to the length of the string, and \<open>lastIndex\<close> is
  neither read nor written.
\<close>

fun test :: "regex \<Rightarrow> jsstring \<Rightarrow> bool" where
  "test r [] = nullable r"
| "test r (u # us) = (if match_here r (u # us) then True else test r us)"

subsection \<open>The signature table\<close>

text \<open>A run of literal characters, and the juxtaposition of several parts.\<close>

definition chars :: "string \<Rightarrow> regex" where
  "chars s = foldr (\<lambda>c r. Seq (Atom (Chr (of_char c))) r) s Empty"

definition seqs :: "regex list \<Rightarrow> regex" where
  "seqs rs = foldr Seq rs Empty"

text \<open>
  An entry of \<^verbatim>\<open>dangerousPatterns\<close> has the fields \<open>pattern\<close>, \<open>risk\<close> and
  \<open>reason\<close>; an entry of \<^verbatim>\<open>risks\<close> has \<open>risk\<close> and \<open>reason\<close>.
\<close>

record finding =
  risk :: jsstring
  reason :: jsstring

record dangerousPattern = finding +
  pattern :: regex

definition entry :: "regex \<Rightarrow> string \<Rightarrow> string \<Rightarrow> dangerousPattern" where
  "entry p k w = \<lparr>risk = ascii k, reason = ascii w, pattern = p\<rparr>"

text \<open>The eleven literals, in the order of the source.\<close>

definition re_rm_root :: regex where
  \<comment> \<open>\<^verbatim>\<open>/rm\s+-rf?\s+\//\<close>\<close>
  "re_rm_root =
     seqs [chars ''rm'', Plus (Atom Space), chars ''-r'', Opt (chars ''f''),
           Plus (Atom Space), chars ''/'']"

definition re_rm_rf :: regex where
  \<comment> \<open>\<^verbatim>\<open>/rm\s+-rf/\<close>\<close>
  "re_rm_rf = seqs [chars ''rm'', Plus (Atom Space), chars ''-rf'']"

definition re_mkfs :: regex where
  \<comment> \<open>\<^verbatim>\<open>/mkfs/\<close>\<close>
  "re_mkfs = chars ''mkfs''"

definition re_dd :: regex where
  \<comment> \<open>\<^verbatim>\<open>/dd\s+.*of=\/dev\//\<close>\<close>
  "re_dd = seqs [chars ''dd'', Plus (Atom Space), Star (Atom Dot), chars ''of=/dev/'']"

definition re_dev_sd :: regex where
  \<comment> \<open>\<^verbatim>\<open>/>\s*\/dev\/sd[a-z]/\<close>\<close>
  "re_dev_sd =
     seqs [chars ''>'', Star (Atom Space), chars ''/dev/sd'', Atom (Range 0x61 0x7A)]"

definition re_chmod :: regex where
  \<comment> \<open>\<^verbatim>\<open>/chmod\s+-R\s+777/\<close>\<close>
  "re_chmod =
     seqs [chars ''chmod'', Plus (Atom Space), chars ''-R'', Plus (Atom Space),
           chars ''777'']"

definition re_chown :: regex where
  \<comment> \<open>\<^verbatim>\<open>/chown\s+-R/\<close>\<close>
  "re_chown = seqs [chars ''chown'', Plus (Atom Space), chars ''-R'']"

definition re_fork_bomb :: regex where
  \<comment> \<open>\<^verbatim>\<open>/:\(\)\{\s*:\|:\s*&\s*\};\s*:/\<close>\<close>
  "re_fork_bomb =
     seqs [chars '':(){'', Star (Atom Space), chars '':|:'', Star (Atom Space),
           chars ''&'', Star (Atom Space), chars ''};'', Star (Atom Space), chars '':'']"

definition re_passwd :: regex where
  \<comment> \<open>\<^verbatim>\<open>/>\s*\/etc\/passwd/\<close>\<close>
  "re_passwd = seqs [chars ''>'', Star (Atom Space), chars ''/etc/passwd'']"

definition re_curl :: regex where
  \<comment> \<open>\<^verbatim>\<open>/curl.*\|\s*(ba)?sh/\<close>\<close>
  "re_curl =
     seqs [chars ''curl'', Star (Atom Dot), chars ''|'', Star (Atom Space),
           Opt (chars ''ba''), chars ''sh'']"

definition re_wget :: regex where
  \<comment> \<open>\<^verbatim>\<open>/wget.*\|\s*(ba)?sh/\<close>\<close>
  "re_wget =
     seqs [chars ''wget'', Star (Atom Dot), chars ''|'', Star (Atom Space),
           Opt (chars ''ba''), chars ''sh'']"

definition dangerousPatterns :: "dangerousPattern list" where
  "dangerousPatterns =
     [entry re_rm_root ''critical'' ''Deletes root filesystem'',
      entry re_rm_rf ''high'' ''Recursive force delete without confirmation'',
      entry re_mkfs ''critical'' ''Formats filesystem, destroys all data'',
      entry re_dd ''critical'' ''Overwrites disk device directly'',
      entry re_dev_sd ''critical'' ''Overwrites disk device'',
      entry re_chmod ''high'' ''Removes all file permissions security'',
      entry re_chown ''medium'' ''Recursive ownership change'',
      entry re_fork_bomb ''critical'' ''Fork bomb - crashes system'',
      entry re_passwd ''critical'' ''Overwrites user database'',
      entry re_curl ''high'' ''Executes remote script without review'',
      entry re_wget ''high'' ''Executes remote script without review'']"

subsection \<open>The tool\<close>

text \<open>
  \<^verbatim>\<open>toUpperCase\<close> on the code units of the ASCII range, which is where the tool
  applies it: the \<open>risk\<close> strings of the table are lower-case ASCII words.
\<close>

definition toUpperCase :: "jsstring \<Rightarrow> jsstring" where
  "toUpperCase s = map (\<lambda>u. if 0x61 \<le> u \<and> u \<le> 0x7A then u - 0x20 else u) s"

text \<open>\<^verbatim>\<open>Array.prototype.join\<close> on an array of strings.\<close>

fun join :: "jsstring \<Rightarrow> jsstring list \<Rightarrow> jsstring" where
  "join sep [] = []"
| "join sep [x] = x"
| "join sep (x # y # ys) = x @ sep @ join sep (y # ys)"

record result =
  type :: jsstring
  command :: jsstring
  risks :: "finding list"
  hasDanger :: bool
  instruction :: jsstring

text \<open>The two emoji of the templates: U+26A0 U+FE0F (warning sign) and U+2705 (check mark).\<close>

definition warning_sign :: jsstring where
  "warning_sign = [0x26A0, 0xFE0F]"

definition check_mark :: jsstring where
  "check_mark = [0x2705]"

definition dangerCheck :: "jsstring \<Rightarrow> result" where
  "dangerCheck cmd =
     (let risks = map (\<lambda>p. \<lparr>risk = risk p, reason = reason p\<rparr>)
                    (filter (\<lambda>p. test (pattern p) cmd) dangerousPatterns)
      in \<lparr>type = ascii ''danger_check'',
          command = cmd,
          risks = risks,
          hasDanger = (length risks > 0),
          instruction =
            (if length risks > 0
             then warning_sign @ ascii '' DANGER DETECTED in command: '' @ cmd
               @ ascii ''\<newline>\<newline>Risks found:\<newline>''
               @ join (ascii ''\<newline>'')
                   (map (\<lambda>r. ascii ''- ['' @ toUpperCase (risk r) @ ascii ''] '' @ reason r)
                      risks)
               @ ascii ''\<newline>\<newline>Provide:\<newline>1. **Why It's Dangerous**: Detailed explanation of what could go wrong\<newline>2. **Safer Alternative**: A safer way to accomplish the same goal\<newline>3. **If You Must Proceed**: Precautions and backup steps\<newline>4. **Recovery Options**: What to do if something goes wrong''
             else check_mark @ ascii '' No obvious dangers detected in: '' @ cmd
               @ ascii ''\<newline>\<newline>However, always:\<newline>1. Understand what a command does before running it\<newline>2. Test with dry-run flags when available\<newline>3. Have backups for important data\<newline>4. Use sudo only when necessary'')\<rparr>)"

subsection \<open>The instruction text, line by line\<close>

text \<open>
  The text the tool is documented to return, written as the list of its lines: the
  upper-cased name of each of the four risk levels, one line per finding, and the fixed
  lines around them.
\<close>

definition risk_label :: "jsstring \<Rightarrow> jsstring" where
  "risk_label k =
     (if k = ascii ''critical'' then ascii ''CRITICAL''
      else if k = ascii ''high'' then ascii ''HIGH''
      else if k = ascii ''medium'' then ascii ''MEDIUM''
      else if k = ascii ''low'' then ascii ''LOW''
      else k)"

definition finding_line :: "finding \<Rightarrow> jsstring" where
  "finding_line f = ascii ''- ['' @ risk_label (risk f) @ ascii ''] '' @ reason f"

definition danger_sections :: "jsstring list" where
  "danger_sections =
     [ascii ''1. **Why It's Dangerous**: Detailed explanation of what could go wrong'',
      ascii ''2. **Safer Alternative**: A safer way to accomplish the same goal'',
      ascii ''3. **If You Must Proceed**: Precautions and backup steps'',
      ascii ''4. **Recovery Options**: What to do if something goes wrong'']"

definition safety_reminders :: "jsstring list" where
  "safety_reminders =
     [ascii ''1. Understand what a command does before running it'',
      ascii ''2. Test with dry-run flags when available'',
      ascii ''3. Have backups for important data'',
      ascii ''4. Use sudo only when necessary'']"

definition danger_guidance :: "jsstring \<Rightarrow> finding list \<Rightarrow> jsstring" where
  "danger_guidance cmd fs =
     join (ascii ''\<newline>'')
       ([warning_sign @ ascii '' DANGER DETECTED in command: '' @ cmd, [], ascii ''Risks found:'']
        @ map finding_line fs
        @ [[], ascii ''Provide:''] @ danger_sections)"

definition safe_guidance :: "jsstring \<Rightarrow> jsstring" where
  "safe_guidance cmd =
     join (ascii ''\<newline>'')
       ([check_mark @ ascii '' No obvious dangers detected in: '' @ cmd, [],
         ascii ''However, always:''] @ safety_reminders)"

subsection \<open>The tool as it runs: the backtracking matcher and the RegExp objects\<close>

text \<open>
  The matcher of ECMAScript is a backtracking one: a pattern is matched against the rest of
  the input with a continuation, here the list of frames still to be matched. A greedy
  quantifier tries its body first and falls back to the continuation; after an iteration of
  \<^verbatim>\<open>*\<close> or \<^verbatim>\<open>?\<close> the match fails when the iteration has consumed nothing (the frame
  \<open>Progress\<close> carries the length of the input left when the iteration began). The first
  argument bounds the depth of the run: \<open>None\<close> means that the bound was reached before the
  matcher returned.
\<close>

datatype frame = Match regex | Progress nat

datatype match_result = Failure | Matched jsstring

fun backtrack :: "nat \<Rightarrow> frame list \<Rightarrow> jsstring \<Rightarrow> match_result option" where
  "backtrack 0 k s = None"
| "backtrack (Suc n) [] s = Some (Matched s)"
| "backtrack (Suc n) (Progress l # k) s =
     (if length s = l then Some Failure else backtrack n k s)"
| "backtrack (Suc n) (Match Fail # k) s = Some Failure"
| "backtrack (Suc n) (Match Empty # k) s = backtrack n k s"
| "backtrack (Suc n) (Match (Atom a) # k) s =
     (case s of
        [] \<Rightarrow> Some Failure
      | u # us \<Rightarrow> if atom_matches a u then backtrack n k us else Some Failure)"
| "backtrack (Suc n) (Match (Seq r1 r2) # k) s = backtrack n (Match r1 # Match r2 # k) s"
| "backtrack (Suc n) (Match (Alt r1 r2) # k) s =
     (case backtrack n (Match r1 # k) s of
        None \<Rightarrow> None
      | Some (Matched t) \<Rightarrow> Some (Matched t)
      | Some Failure \<Rightarrow> backtrack n (Match r2 # k) s)"
| "backtrack (Suc n) (Match (Star r) # k) s =
     (case backtrack n (Match r # Progress (length s) # Match (Star r) # k) s of
        None \<Rightarrow> None
      | Some (Matched t) \<Rightarrow> Some (Matched t)
      | Some Failure \<Rightarrow> backtrack n k s)"
| "backtrack (Suc n) (Match (Plus r) # k) s = backtrack n (Match r # Match (Star r) # k) s"
| "backtrack (Suc n) (Match (Opt r) # k) s =
     (case backtrack n (Match r # Progress (length s) # k) s of
        None \<Rightarrow> None
      | Some (Matched t) \<Rightarrow> Some (Matched t)
      | Some Failure \<Rightarrow> backtrack n k s)"

text \<open>
  The loop of \<^verbatim>\<open>RegExpBuiltinExec\<close> over the start index: the match is tried at the
  current index; on failure a sticky pattern gives up and any other pattern moves one code
  unit on, until the index passes the end of the string. The string argument is the input
  from the current index on.
\<close>

fun search :: "nat \<Rightarrow> regex \<Rightarrow> bool \<Rightarrow> jsstring \<Rightarrow> match_result option" where
  "search n r y [] = backtrack n [Match r] []"
| "search n r y (u # us) =
     (case backtrack n [Match r] (u # us) of
        None \<Rightarrow> None
      | Some (Matched t) \<Rightarrow> Some (Matched t)
      | Some Failure \<Rightarrow> if y then Some Failure else search n r y us)"

text \<open>
  A RegExp object: its pattern, the flags g and y, and the mutable \<open>lastIndex\<close>. Objects
  live in a heap and are named by their address; evaluating a literal allocates a new
  object with \<open>lastIndex = 0\<close>.
\<close>

record regexp =
  source :: regex
  global :: bool
  sticky :: bool
  lastIndex :: nat

type_synonym heap = "regexp list"

datatype 'a outcome = OutOfFuel | TypeError | Returns 'a

definition new_regexp :: "regex \<Rightarrow> bool \<Rightarrow> bool \<Rightarrow> heap \<Rightarrow> nat \<times> heap" where
  "new_regexp r g y h =
     (length h, h @ [\<lparr>source = r, global = g, sticky = y, lastIndex = 0\<rparr>])"

text \<open>
  \<^verbatim>\<open>RegExp.prototype.test\<close> on the object at an address. With the flag g or y the
  search starts at \<open>lastIndex\<close>, and \<open>lastIndex\<close> is set to the end of the match or reset
  to 0 on failure; without them the search starts at 0 and the object is left as it is.
  Calling the method on an address that holds no object throws a TypeError.
\<close>

definition regexp_test :: "nat \<Rightarrow> heap \<Rightarrow> nat \<Rightarrow> jsstring \<Rightarrow> (bool \<times> heap) outcome" where
  "regexp_test n h a s =
     (if length h \<le> a then TypeError
      else
        let R = h ! a;
            flagged = (global R \<or> sticky R);
            i = (if flagged then lastIndex R else 0);
            failed = (if flagged then h[a := R\<lparr>lastIndex := 0\<rparr>] else h)
        in if length s < i then Returns (False, failed)
           else case search n (source R) (sticky R) (drop i s) of
                  None \<Rightarrow> OutOfFuel
                | Some Failure \<Rightarrow> Returns (False, failed)
                | Some (Matched t) \<Rightarrow>
                    Returns (True,
                      if flagged then h[a := R\<lparr>lastIndex := length s - length t\<rparr>] else h))"

text \<open>
  The array literal \<^verbatim>\<open>dangerousPatterns\<close> is evaluated on every call: each entry
  evaluates its RegExp literal, which carries no flag, and holds the address of the new
  object.
\<close>

record patternEntry = finding +
  pattern_ref :: nat

fun alloc_patterns :: "dangerousPattern list \<Rightarrow> heap \<Rightarrow> patternEntry list \<times> heap" where
  "alloc_patterns [] h = ([], h)"
| "alloc_patterns (p # ps) h =
     (case new_regexp (pattern p) False False h of
        (a, h1) \<Rightarrow>
          (case alloc_patterns ps h1 of
             (es, h2) \<Rightarrow> (\<lparr>risk = risk p, reason = reason p, pattern_ref = a\<rparr> # es, h2)))"

text \<open>\<^verbatim>\<open>.filter((p) => p.pattern.test(command))\<close>, entry by entry, on the heap.\<close>

fun filter_matching ::
  "nat \<Rightarrow> heap \<Rightarrow> patternEntry list \<Rightarrow> jsstring \<Rightarrow> (patternEntry list \<times> heap) outcome" where
  "filter_matching n h [] cmd = Returns ([], h)"
| "filter_matching n h (p # ps) cmd =
     (case regexp_test n h (pattern_ref p) cmd of
        OutOfFuel \<Rightarrow> OutOfFuel
      | TypeError \<Rightarrow> TypeError
      | Returns (b, h1) \<Rightarrow>
          (case filter_matching n h1 ps cmd of
             OutOfFuel \<Rightarrow> OutOfFuel
           | TypeError \<Rightarrow> TypeError
           | Returns (qs, h2) \<Rightarrow> Returns (if b then p # qs else qs, h2)))"

text \<open>The object that the tool returns, from the command and the risks.\<close>

definition build_result :: "jsstring \<Rightarrow> finding list \<Rightarrow> result" where
  "build_result cmd rs =
     \<lparr>type = ascii ''danger_check'',
      command = cmd,
      risks = rs,
      hasDanger = (length rs > 0),
      instruction =
        (if length rs > 0
         then warning_sign @ ascii '' DANGER DETECTED in command: '' @ cmd
           @ ascii ''\<newline>\<newline>Risks found:\<newline>''
           @ join (ascii ''\<newline>'')
               (map (\<lambda>r. ascii ''- ['' @ toUpperCase (risk r) @ ascii ''] '' @ reason r)
                  rs)
           @ ascii ''\<newline>\<newline>Provide:\<newline>1. **Why It's Dangerous**: Detailed explanation of what could go wrong\<newline>2. **Safer Alternative**: A safer way to accomplish the same goal\<newline>3. **If You Must Proceed**: Precautions and backup steps\<newline>4. **Recovery Options**: What to do if something goes wrong''
         else check_mark @ ascii '' No obvious dangers detected in: '' @ cmd
           @ ascii ''\<newline>\<newline>However, always:\<newline>1. Understand what a command does before running it\<newline>2. Test with dry-run flags when available\<newline>3. Have backups for important data\<newline>4. Use sudo only when necessary'')\<rparr>"

text \<open>
  One call of \<^verbatim>\<open>execute\<close> on a heap: the table is allocated, filtered and mapped, and
  the result is returned with the heap the call leaves behind.
\<close>

definition execute :: "nat \<Rightarrow> heap \<Rightarrow> jsstring \<Rightarrow> (result \<times> heap) outcome" where
  "execute n h cmd =
     (case alloc_patterns dangerousPatterns h of
        (table, h1) \<Rightarrow>
          (case filter_matching n h1 table cmd of
             OutOfFuel \<Rightarrow> OutOfFuel
           | TypeError \<Rightarrow> TypeError
           | Returns (ms, h2) \<Rightarrow>
               Returns (build_result cmd (map (\<lambda>p. \<lparr>risk = risk p, reason = reason p\<rparr>) ms), h2)))"

text \<open>A sequence of calls, each on the heap that the calls before it have left.\<close>

fun invocations :: "nat \<Rightarrow> heap \<Rightarrow> jsstring list \<Rightarrow> (result list \<times> heap) outcome" where
  "invocations n h [] = Returns ([], h)"
| "invocations n h (c # cs) =
     (case execute n h c of
        OutOfFuel \<Rightarrow> OutOfFuel
      | TypeError \<Rightarrow> TypeError
      | Returns (r, h1) \<Rightarrow>
          (case invocations n h1 cs of
             OutOfFuel \<Rightarrow> OutOfFuel
           | TypeError \<Rightarrow> TypeError
           | Returns (rs, h2) \<Rightarrow> Returns (r # rs, h2)))"

text \<open>
  What a list of frames accepts, in terms of the language of the patterns, and the measure
  under which every step of the matcher gets smaller.
\<close>

fun accepts :: "frame list \<Rightarrow> jsstring \<Rightarrow> bool" where
  "accepts [] s = True"
| "accepts (Progress l # k) s = (length s \<noteq> l \<and> accepts k s)"
| "accepts (Match r # k) s = (\<exists>u v. s = u @ v \<and> u \<in> lang r \<and> accepts k v)"

fun weight :: "regex \<Rightarrow> nat" where
  "weight Fail = 1"
| "weight Empty = 1"
| "weight (Atom a) = 1"
| "weight (Seq r s) = weight r + weight s + 2"
| "weight (Alt r s) = weight r + weight s + 1"
| "weight (Star r) = weight r + 2"
| "weight (Plus r) = 2 * weight r + 4"
| "weight (Opt r) = weight r + 1"

fun pending :: "frame list \<Rightarrow> nat \<Rightarrow> nat" where
  "pending [] n = 0"
| "pending (Match r # k) n = weight r + 1 + pending k n"
| "pending (Progress l # k) n = (if l = n then 0 else 1 + pending k n)"

text \<open>An entry of the allocated table holds the object of the literal of a table entry.\<close>

definition holds_literal :: "heap \<Rightarrow> patternEntry \<Rightarrow> dangerousPattern \<Rightarrow> bool" where
  "holds_literal h e p =
     (pattern_ref e < length h
      \<and> h ! pattern_ref e = \<lparr>source = pattern p, global = False, sticky = False, lastIndex = 0\<rparr>
      \<and> risk e = risk p \<and> reason e = reason p)"

section \<open>The matcher decides the language of a pattern\<close>

lemma conc_empty [simp]: "conc {} B = {}" "conc A {} = {}"
  by (auto simp: conc_def)

lemma conc_unit [simp]: "conc {[]} B = B"
  by (auto simp: conc_def)

lemma in_conc: "w \<in> conc A B \<longleftrightarrow> (\<exists>x y. w = x @ y \<and> x \<in> A \<and> y \<in> B)"
  by (auto simp: conc_def)

lemma nil_in_conc: "[] \<in> conc A B \<longleftrightarrow> [] \<in> A \<and> [] \<in> B"
  by (auto simp: conc_def)

lemma cons_in_conc:
  "u # w \<in> conc A B \<longleftrightarrow>
     ([] \<in> A \<and> u # w \<in> B) \<or> (\<exists>x y. w = x @ y \<and> u # x \<in> A \<and> y \<in> B)"
  by (auto simp: conc_def Cons_eq_append_conv)

lemma cons_in_star_D:
  assumes "z \<in> star A" and "z = u # w"
  shows "\<exists>x y. w = x @ y \<and> u # x \<in> A \<and> y \<in> star A"
  using assms
proof (induction arbitrary: w rule: star.induct)
  case star_nil
  then show ?case by simp
next
  case (star_app a v)
  show ?case
  proof (cases a)
    case Nil
    with star_app show ?thesis by simp
  next
    case (Cons b bs)
    with star_app.prems have "b = u" and "w = bs @ v" by simp_all
    with Cons star_app.hyps show ?thesis by blast
  qed
qed

lemma cons_in_star:
  "u # w \<in> star A \<longleftrightarrow> (\<exists>x y. w = x @ y \<and> u # x \<in> A \<and> y \<in> star A)"
proof
  assume "u # w \<in> star A"
  then show "\<exists>x y. w = x @ y \<and> u # x \<in> A \<and> y \<in> star A"
    by (rule cons_in_star_D) simp
next
  assume "\<exists>x y. w = x @ y \<and> u # x \<in> A \<and> y \<in> star A"
  then obtain x y where "w = x @ y" "u # x \<in> A" "y \<in> star A" by blast
  then show "u # w \<in> star A"
    using star_app [of "u # x" A y] by simp
qed

lemma lang_seq: "lang (seq r s) = conc (lang r) (lang s)"
  by (cases r) simp_all

lemma lang_alt: "lang (alt r s) = lang r \<union> lang s"
  by (cases r; cases s) simp_all

lemma nullable_iff: "nullable r \<longleftrightarrow> [] \<in> lang r"
  by (induction r) (auto simp: nil_in_conc intro: star_nil)

lemma lang_deriv: "w \<in> lang (deriv u r) \<longleftrightarrow> u # w \<in> lang r"
proof (induction r arbitrary: w)
  case (Seq r s)
  have step: "w \<in> lang (seq (deriv u r) s) \<longleftrightarrow> (\<exists>x y. w = x @ y \<and> u # x \<in> lang r \<and> y \<in> lang s)"
    by (simp add: lang_seq in_conc Seq.IH(1))
  show ?case
  proof (cases "nullable r")
    case True
    then show ?thesis
      using step by (auto simp: lang_alt cons_in_conc nullable_iff Seq.IH(2))
  next
    case False
    then show ?thesis
      using step by (auto simp: cons_in_conc nullable_iff)
  qed
next
  case (Star r)
  have "w \<in> lang (seq (deriv u r) (Star r)) \<longleftrightarrow> (\<exists>x y. w = x @ y \<and> u # x \<in> lang r \<and> y \<in> star (lang r))"
    by (simp add: lang_seq in_conc Star.IH)
  then show ?case by (simp add: cons_in_star)
next
  case (Plus r)
  have step: "w \<in> lang (seq (deriv u r) (Star r)) \<longleftrightarrow> (\<exists>x y. w = x @ y \<and> u # x \<in> lang r \<and> y \<in> star (lang r))"
    by (simp add: lang_seq in_conc Plus.IH)
  have "[] \<in> lang r \<and> u # w \<in> star (lang r) \<Longrightarrow> \<exists>x y. w = x @ y \<and> u # x \<in> lang r \<and> y \<in> star (lang r)"
    by (simp add: cons_in_star)
  then show ?case
    using step by (auto simp: cons_in_conc)
next
  case (Alt r s)
  then show ?case by (simp add: lang_alt)
qed simp_all

lemma match_here_iff: "match_here r s \<longleftrightarrow> (\<exists>m post. s = m @ post \<and> m \<in> lang r)"
proof (induction s arbitrary: r)
  case Nil
  then show ?case by (simp add: nullable_iff)
next
  case (Cons u us)
  show ?case
  proof (cases "nullable r")
    case True
    then have "u # us = [] @ (u # us) \<and> [] \<in> lang r" by (simp add: nullable_iff)
    then show ?thesis using True by (metis match_here.simps(2))
  next
    case False
    then have "[] \<notin> lang r" by (simp add: nullable_iff)
    then have "(\<exists>m post. u # us = m @ post \<and> m \<in> lang r)
      \<longleftrightarrow> (\<exists>m post. us = m @ post \<and> u # m \<in> lang r)"
      by (auto simp: Cons_eq_append_conv)
    with False Cons show ?thesis by (simp add: lang_deriv)
  qed
qed

lemma test_iff: "test r s \<longleftrightarrow> matches_somewhere r s"
proof (induction s)
  case Nil
  then show ?case by (simp add: matches_somewhere_def nullable_iff)
next
  case (Cons u us)
  have "matches_somewhere r (u # us) \<longleftrightarrow> match_here r (u # us) \<or> matches_somewhere r us"
  proof
    assume "matches_somewhere r (u # us)"
    then obtain pre m post where e: "u # us = pre @ m @ post" and m: "m \<in> lang r"
      by (auto simp: matches_somewhere_def)
    show "match_here r (u # us) \<or> matches_somewhere r us"
    proof (cases pre)
      case Nil
      with e m show ?thesis unfolding match_here_iff by auto
    next
      case (Cons p ps)
      with e m show ?thesis by (auto simp: matches_somewhere_def)
    qed
  next
    assume "match_here r (u # us) \<or> matches_somewhere r us"
    then show "matches_somewhere r (u # us)"
    proof
      assume "match_here r (u # us)"
      then obtain m post where "u # us = [] @ m @ post" "m \<in> lang r"
        unfolding match_here_iff by auto
      then show ?thesis unfolding matches_somewhere_def by blast
    next
      assume "matches_somewhere r us"
      then obtain pre m post where "us = pre @ m @ post" "m \<in> lang r"
        by (auto simp: matches_somewhere_def)
      then have "u # us = (u # pre) @ m @ post" by simp
      with \<open>m \<in> lang r\<close> show ?thesis unfolding matches_somewhere_def by blast
    qed
  qed
  with Cons show ?case by simp
qed

section \<open>Facts about the table and the templates\<close>

lemmas re_defs = re_rm_root_def re_rm_rf_def re_mkfs_def re_dd_def re_dev_sd_def re_chmod_def
  re_chown_def re_fork_bomb_def re_passwd_def re_curl_def re_wget_def

lemmas eval_defs = dangerousPatterns_def entry_def re_defs chars_def seqs_def ascii_def
  isWhiteSpace_def isLineTerminator_def

lemma risks_dangerCheck:
  "risks (dangerCheck cmd) =
     map (\<lambda>p. \<lparr>risk = risk p, reason = reason p\<rparr>)
       (filter (\<lambda>p. test (pattern p) cmd) dangerousPatterns)"
  by (simp add: dangerCheck_def Let_def)

lemma hasDanger_dangerCheck: "hasDanger (dangerCheck cmd) = (risks (dangerCheck cmd) \<noteq> [])"
  by (simp add: dangerCheck_def Let_def)

lemma table_risks:
  "p \<in> set dangerousPatterns \<Longrightarrow>
     risk p = ascii ''critical'' \<or> risk p = ascii ''high'' \<or> risk p = ascii ''medium''"
  by (auto simp: dangerousPatterns_def entry_def)

lemma upper: "toUpperCase (ascii ''critical'') = ascii ''CRITICAL''"
   "toUpperCase (ascii ''high'') = ascii ''HIGH''"
   "toUpperCase (ascii ''medium'') = ascii ''MEDIUM''"
  by (simp_all add: toUpperCase_def ascii_def)

lemma levels_distinct:
  "ascii ''critical'' \<noteq> ascii ''low''" "ascii ''high'' \<noteq> ascii ''low''"
  "ascii ''medium'' \<noteq> ascii ''low''" "ascii ''critical'' \<noteq> ascii ''high''"
  "ascii ''critical'' \<noteq> ascii ''medium''" "ascii ''high'' \<noteq> ascii ''medium''"
  by (simp_all add: ascii_def)

lemma join_append:
  "xs \<noteq> [] \<Longrightarrow> ys \<noteq> [] \<Longrightarrow> join sep (xs @ ys) = join sep xs @ sep @ join sep ys"
proof (induction sep xs rule: join.induct)
  case (2 sep x)
  then show ?case by (cases ys) simp_all
qed simp_all

lemma safe_text:
  "check_mark @ ascii '' No obvious dangers detected in: '' @ cmd
               @ ascii ''\<newline>\<newline>However, always:\<newline>1. Understand what a command does before running it\<newline>2. Test with dry-run flags when available\<newline>3. Have backups for important data\<newline>4. Use sudo only when necessary'' = safe_guidance cmd"
  by (simp add: safe_guidance_def safety_reminders_def ascii_def)

lemma danger_text:
  assumes "fs \<noteq> []"
  shows "warning_sign @ ascii '' DANGER DETECTED in command: '' @ cmd
               @ ascii ''\<newline>\<newline>Risks found:\<newline>''
               @ join (ascii ''\<newline>'') (map finding_line fs)
               @ ascii ''\<newline>\<newline>Provide:\<newline>1. **Why It's Dangerous**: Detailed explanation of what could go wrong\<newline>2. **Safer Alternative**: A safer way to accomplish the same goal\<newline>3. **If You Must Proceed**: Precautions and backup steps\<newline>4. **Recovery Options**: What to do if something goes wrong''
       = danger_guidance cmd fs"
proof -
  have tail: "join (ascii ''\<newline>'') ([[], ascii ''Provide:''] @ danger_sections) =
     ascii ''\<newline>Provide:\<newline>1. **Why It's Dangerous**: Detailed explanation of what could go wrong\<newline>2. **Safer Alternative**: A safer way to accomplish the same goal\<newline>3. **If You Must Proceed**: Precautions and backup steps\<newline>4. **Recovery Options**: What to do if something goes wrong''"
    by (simp add: danger_sections_def ascii_def)
  have head: "join (ascii ''\<newline>'') [warning_sign @ ascii '' DANGER DETECTED in command: '' @ cmd, [], ascii ''Risks found:'']
     = warning_sign @ ascii '' DANGER DETECTED in command: '' @ cmd @ ascii ''\<newline>\<newline>Risks found:''"
    by (simp add: ascii_def)
  have m: "map finding_line fs \<noteq> []" using assms by simp
  have "danger_guidance cmd fs =
     join (ascii ''\<newline>'') [warning_sign @ ascii '' DANGER DETECTED in command: '' @ cmd, [], ascii ''Risks found:'']
     @ ascii ''\<newline>'' @ join (ascii ''\<newline>'') (map finding_line fs)
     @ ascii ''\<newline>'' @ join (ascii ''\<newline>'') ([[], ascii ''Provide:''] @ danger_sections)"
    unfolding danger_guidance_def
    using m by (subst join_append, simp, simp, subst join_append, simp, simp, simp)
  also have "\<dots> = warning_sign @ ascii '' DANGER DETECTED in command: '' @ cmd
               @ ascii ''\<newline>\<newline>Risks found:\<newline>''
               @ join (ascii ''\<newline>'') (map finding_line fs)
               @ ascii ''\<newline>\<newline>Provide:\<newline>1. **Why It's Dangerous**: Detailed explanation of what could go wrong\<newline>2. **Safer Alternative**: A safer way to accomplish the same goal\<newline>3. **If You Must Proceed**: Precautions and backup steps\<newline>4. **Recovery Options**: What to do if something goes wrong''"
    unfolding head tail by (simp add: ascii_def)
  finally show ?thesis by simp
qed

lemma risk_label_upper:
  "k = ascii ''critical'' \<or> k = ascii ''high'' \<or> k = ascii ''medium'' \<Longrightarrow>
     toUpperCase k = risk_label k"
  by (auto simp: risk_label_def upper levels_distinct)

lemma risks_levels:
  assumes "f \<in> set (risks (dangerCheck cmd))"
  shows "risk f = ascii ''critical'' \<or> risk f = ascii ''high'' \<or> risk f = ascii ''medium''"
proof -
  from assms obtain p where "p \<in> set dangerousPatterns" and "f = \<lparr>risk = risk p, reason = reason p\<rparr>"
    by (auto simp: risks_dangerCheck)
  then show ?thesis using table_risks [of p] by simp
qed

lemma lines_eq:
  "map (\<lambda>r. ascii ''- ['' @ toUpperCase (risk r) @ ascii ''] '' @ reason r) (risks (dangerCheck cmd))
   = map finding_line (risks (dangerCheck cmd))"
  by (rule map_cong) (simp_all add: finding_line_def risk_label_upper risks_levels)

lemma instruction_dangerCheck:
  "instruction (dangerCheck cmd) =
     (if risks (dangerCheck cmd) \<noteq> [] then danger_guidance cmd (risks (dangerCheck cmd))
      else safe_guidance cmd)"
proof (cases "risks (dangerCheck cmd) = []")
  case True
  then have "instruction (dangerCheck cmd) = check_mark @ ascii '' No obvious dangers detected in: '' @ cmd
               @ ascii ''\<newline>\<newline>However, always:\<newline>1. Understand what a command does before running it\<newline>2. Test with dry-run flags when available\<newline>3. Have backups for important data\<newline>4. Use sudo only when necessary''"
    by (simp add: dangerCheck_def Let_def)
  with True show ?thesis by (simp only: safe_text if_False simp_thms)
next
  case False
  define fs where "fs = risks (dangerCheck cmd)"
  have "instruction (dangerCheck cmd) = warning_sign @ ascii '' DANGER DETECTED in command: '' @ cmd
               @ ascii ''\<newline>\<newline>Risks found:\<newline>''
               @ join (ascii ''\<newline>'') (map (\<lambda>r. ascii ''- ['' @ toUpperCase (risk r) @ ascii ''] '' @ reason r) (risks (dangerCheck cmd)))
               @ ascii ''\<newline>\<newline>Provide:\<newline>1. **Why It's Dangerous**: Detailed explanation of what could go wrong\<newline>2. **Safer Alternative**: A safer way to accomplish the same goal\<newline>3. **If You Must Proceed**: Precautions and backup steps\<newline>4. **Recovery Options**: What to do if something goes wrong''"
    using False by (simp add: dangerCheck_def Let_def)
  also have "\<dots> = danger_guidance cmd (risks (dangerCheck cmd))"
    unfolding lines_eq using False by (rule danger_text)
  finally show ?thesis using False by simp
qed

lemma conc_unit_right [simp]: "conc A {[]} = A"
  by (auto simp: conc_def)





lemma full_match: "m \<in> lang r \<longleftrightarrow> nullable (foldl (\<lambda>r u. deriv u r) r m)"
proof (induction m arbitrary: r)
  case Nil
  show ?case by (simp add: nullable_iff)
next
  case (Cons u us)
  have "u # us \<in> lang r \<longleftrightarrow> us \<in> lang (deriv u r)" by (simp add: lang_deriv)
  also have "\<dots> \<longleftrightarrow> nullable (foldl (\<lambda>r u. deriv u r) (deriv u r) us)" by (rule Cons.IH)
  finally show ?case by simp
qed

lemma matches_somewhereI: "m \<in> lang r \<Longrightarrow> matches_somewhere r (pre @ m @ post)"
  unfolding matches_somewhere_def by blast

lemma finding_in_risks:
  assumes "p \<in> set dangerousPatterns" and "matches_somewhere (pattern p) cmd"
  shows "\<lparr>risk = risk p, reason = reason p\<rparr> \<in> set (risks (dangerCheck cmd))"
  using assms by (auto simp: risks_dangerCheck test_iff)

lemma fork_bomb_lang: "ascii '':(){ :|:& };:'' \<in> lang re_fork_bomb"
  by (subst full_match) (simp add: eval_defs)


lemma in_table:
  "entry re_rm_root ''critical'' ''Deletes root filesystem'' \<in> set dangerousPatterns"
  "entry re_chmod ''high'' ''Removes all file permissions security'' \<in> set dangerousPatterns"
  "entry re_fork_bomb ''critical'' ''Fork bomb - crashes system'' \<in> set dangerousPatterns"
  by (simp_all add: dangerousPatterns_def)


text \<open>The tool on three sample commands.\<close>

lemma chmod_example_risks:
  "risks (dangerCheck (ascii ''chmod -R 777 /'')) =
     [\<lparr>risk = ascii ''high'', reason = ascii ''Removes all file permissions security''\<rparr>]"
  by (simp add: risks_dangerCheck eval_defs)

lemma chmod_example_test: "test re_chmod (ascii ''chmod -R 777 /'')"
  by (simp add: eval_defs)

lemma reason_chmod_only:
  assumes "p \<in> set dangerousPatterns"
    and "reason p = ascii ''Removes all file permissions security''"
  shows "risk p = ascii ''high''"
  using assms by (auto simp: dangerousPatterns_def entry_def) (simp_all add: ascii_def)

lemma risk_label_range:
  assumes "f \<in> set (risks (dangerCheck cmd))"
  shows "risk_label (risk f) \<in> {ascii ''CRITICAL'', ascii ''HIGH'', ascii ''MEDIUM''}"
  using risks_levels [OF assms] by (auto simp: risk_label_def levels_distinct)

lemma ls_example_risks: "risks (dangerCheck (ascii ''ls -la'')) = []"
  by (simp add: risks_dangerCheck eval_defs)

lemma rm_example_risks:
  "risks (dangerCheck (ascii ''rm -rf /'')) =
     [\<lparr>risk = ascii ''critical'', reason = ascii ''Deletes root filesystem''\<rparr>,
      \<lparr>risk = ascii ''high'', reason = ascii ''Recursive force delete without confirmation''\<rparr>]"
  by (simp add: risks_dangerCheck eval_defs)

section \<open>The run of the tool on a heap\<close>

text \<open>The matcher keeps its answer when it is given more fuel.\<close>

lemma backtrack_mono:
  "backtrack n k s = Some res \<Longrightarrow> backtrack (n + m) k s = Some res"
proof (induction n k s arbitrary: res rule: backtrack.induct)
  case (6 n a k s)
  then show ?case by (cases s) (auto split: if_splits)
next
  case (8 n r1 r2 k s)
  then show ?case
    by (auto split: option.splits match_result.splits)
next
  case (9 n r k s)
  then show ?case
    by (auto split: option.splits match_result.splits)
next
  case (11 n r k s)
  then show ?case
    by (auto split: option.splits match_result.splits)
qed (auto split: if_splits)

lemma star_nonempty_head:
  "u \<in> star A \<Longrightarrow> u = [] \<or> (\<exists>a b. u = a @ b \<and> a \<noteq> [] \<and> a \<in> A \<and> b \<in> star A)"
proof (induction rule: star.induct)
  case star_nil
  show ?case by simp
next
  case (star_app a b)
  show ?case
  proof (cases "a = []")
    case True
    with star_app.IH show ?thesis by simp
  next
    case False
    with star_app.hyps show ?thesis by blast
  qed
qed

lemma accepts_Seq: "accepts (Match (Seq r1 r2) # k) s = accepts (Match r1 # Match r2 # k) s"
proof
  assume "accepts (Match (Seq r1 r2) # k) s"
  then obtain u v where "s = u @ v" "u \<in> conc (lang r1) (lang r2)" "accepts k v" by auto
  then obtain x y where "u = x @ y" "x \<in> lang r1" "y \<in> lang r2" by (auto simp: in_conc)
  with \<open>s = u @ v\<close> \<open>accepts k v\<close> have "s = x @ (y @ v) \<and> x \<in> lang r1 \<and> accepts (Match r2 # k) (y @ v)"
    by auto
  then show "accepts (Match r1 # Match r2 # k) s" by (simp only: accepts.simps) blast
next
  assume "accepts (Match r1 # Match r2 # k) s"
  then obtain x w where "s = x @ w" "x \<in> lang r1" "accepts (Match r2 # k) w" by auto
  then obtain y v where "w = y @ v" "y \<in> lang r2" "accepts k v" by auto
  with \<open>s = x @ w\<close> \<open>x \<in> lang r1\<close> have "s = (x @ y) @ v \<and> x @ y \<in> lang (Seq r1 r2) \<and> accepts k v"
    by (auto simp: in_conc)
  then show "accepts (Match (Seq r1 r2) # k) s" by (simp only: accepts.simps) blast
qed

lemma accepts_Alt:
  "accepts (Match (Alt r1 r2) # k) s = (accepts (Match r1 # k) s \<or> accepts (Match r2 # k) s)"
  by auto

lemma accepts_Empty: "accepts (Match Empty # k) s = accepts k s"
  by simp

lemma accepts_Fail: "accepts (Match Fail # k) s = False"
  by simp

lemma accepts_Atom:
  "accepts (Match (Atom a) # k) s =
     (case s of [] \<Rightarrow> False | u # us \<Rightarrow> atom_matches a u \<and> accepts k us)"
proof (cases s)
  case Nil
  then show ?thesis by auto
next
  case (Cons x xs)
  have "accepts (Match (Atom a) # k) (x # xs) = (atom_matches a x \<and> accepts k xs)"
  proof
    assume "accepts (Match (Atom a) # k) (x # xs)"
    then show "atom_matches a x \<and> accepts k xs" by auto
  next
    assume "atom_matches a x \<and> accepts k xs"
    then have "x # xs = [x] @ xs \<and> [x] \<in> lang (Atom a) \<and> accepts k xs" by simp
    then show "accepts (Match (Atom a) # k) (x # xs)" by (simp only: accepts.simps) blast
  qed
  with Cons show ?thesis by simp
qed

lemma accepts_Star:
  "accepts (Match (Star r) # k) s =
     (accepts (Match r # Progress (length s) # Match (Star r) # k) s \<or> accepts k s)"
proof
  assume "accepts (Match (Star r) # k) s"
  then obtain u v where s: "s = u @ v" and u: "u \<in> star (lang r)" and v: "accepts k v" by auto
  from star_nonempty_head [OF u] show
    "accepts (Match r # Progress (length s) # Match (Star r) # k) s \<or> accepts k s"
  proof
    assume "u = []"
    with s v show ?thesis by simp
  next
    assume "\<exists>a b. u = a @ b \<and> a \<noteq> [] \<and> a \<in> lang r \<and> b \<in> star (lang r)"
    then obtain a b where ab: "u = a @ b" "a \<noteq> []" "a \<in> lang r" "b \<in> star (lang r)" by blast
    have 1: "accepts (Match (Star r) # k) (b @ v)" using ab(4) v by auto
    have 2: "length (b @ v) \<noteq> length s" using s ab(1,2) by simp
    have "s = a @ (b @ v)" using s ab(1) by simp
    with 1 2 ab(3) have "accepts (Match r # Progress (length s) # Match (Star r) # k) s"
      by (simp only: accepts.simps) blast
    then show ?thesis ..
  qed
next
  assume "accepts (Match r # Progress (length s) # Match (Star r) # k) s \<or> accepts k s"
  then show "accepts (Match (Star r) # k) s"
  proof
    assume "accepts k s"
    then have "s = [] @ s \<and> [] \<in> lang (Star r) \<and> accepts k s" by (simp add: star_nil)
    then show ?thesis by (simp only: accepts.simps) blast
  next
    assume "accepts (Match r # Progress (length s) # Match (Star r) # k) s"
    then obtain a w where "s = a @ w" "a \<in> lang r" "accepts (Match (Star r) # k) w" by auto
    then obtain b v where "w = b @ v" "b \<in> star (lang r)" "accepts k v" by auto
    with \<open>s = a @ w\<close> \<open>a \<in> lang r\<close>
    have "s = (a @ b) @ v \<and> a @ b \<in> lang (Star r) \<and> accepts k v"
      by (auto intro: star_app)
    then show ?thesis by (simp only: accepts.simps) blast
  qed
qed

lemma accepts_Plus:
  "accepts (Match (Plus r) # k) s = accepts (Match r # Match (Star r) # k) s"
proof -
  have "lang (Plus r) = lang (Seq r (Star r))" by simp
  then have "accepts (Match (Plus r) # k) s = accepts (Match (Seq r (Star r)) # k) s"
    by (simp only: accepts.simps)
  then show ?thesis by (simp only: accepts_Seq)
qed

lemma accepts_Opt:
  "accepts (Match (Opt r) # k) s =
     (accepts (Match r # Progress (length s) # k) s \<or> accepts k s)"
proof
  assume "accepts (Match (Opt r) # k) s"
  then obtain u v where s: "s = u @ v" and u: "u = [] \<or> u \<in> lang r" and v: "accepts k v" by auto
  show "accepts (Match r # Progress (length s) # k) s \<or> accepts k s"
  proof (cases "u = []")
    case True
    with s v show ?thesis by simp
  next
    case False
    with u s v have "s = u @ v \<and> u \<in> lang r \<and> length v \<noteq> length s \<and> accepts k v" by simp
    then have "accepts (Match r # Progress (length s) # k) s"
      by (simp only: accepts.simps) blast
    then show ?thesis ..
  qed
next
  assume "accepts (Match r # Progress (length s) # k) s \<or> accepts k s"
  then show "accepts (Match (Opt r) # k) s"
  proof
    assume "accepts k s"
    then have "s = [] @ s \<and> [] \<in> lang (Opt r) \<and> accepts k s" by simp
    then show ?thesis by (simp only: accepts.simps) blast
  next
    assume "accepts (Match r # Progress (length s) # k) s"
    then obtain u v where "s = u @ v" "u \<in> lang r" "accepts k v" by auto
    then have "s = u @ v \<and> u \<in> lang (Opt r) \<and> accepts k v" by simp
    then show ?thesis by (simp only: accepts.simps) blast
  qed
qed

lemma backtrack_sound:
  "backtrack n k s = Some res \<Longrightarrow> (res \<noteq> Failure) = accepts k s"
proof (induction n k s arbitrary: res rule: backtrack.induct)
  case (1 k s)
  then show ?case by simp
next
  case (2 n s)
  then show ?case by auto
next
  case (3 n l k s)
  then show ?case by (auto split: if_splits)
next
  case (4 n k s)
  then show ?case by auto
next
  case (5 n k s)
  then show ?case by (simp only: accepts_Empty backtrack.simps)
next
  case (6 n a k s)
  then show ?case
    by (cases s) (auto simp only: accepts_Atom backtrack.simps list.case split: if_splits)
next
  case (7 n r1 r2 k s)
  then show ?case by (simp only: accepts_Seq backtrack.simps)
next
  case (8 n r1 r2 k s)
  show ?case
  proof (cases "backtrack n (Match r1 # k) s")
    case None
    with 8 show ?thesis by simp
  next
    case (Some x)
    show ?thesis
    proof (cases x)
      case Failure
      with Some 8 show ?thesis by (auto simp: accepts_Alt simp del: accepts.simps)
    next
      case (Matched t)
      with Some 8 show ?thesis by (auto simp: accepts_Alt simp del: accepts.simps)
    qed
  qed
next
  case (9 n r k s)
  show ?case
  proof (cases "backtrack n (Match r # Progress (length s) # Match (Star r) # k) s")
    case None
    with 9 show ?thesis by simp
  next
    case (Some x)
    show ?thesis
    proof (cases x)
      case Failure
      with Some 9 show ?thesis by (subst accepts_Star) (auto simp del: accepts.simps)
    next
      case (Matched t)
      with Some 9 show ?thesis by (subst accepts_Star) (auto simp del: accepts.simps)
    qed
  qed
next
  case (10 n r k s)
  then show ?case by (simp only: accepts_Plus backtrack.simps)
next
  case (11 n r k s)
  show ?case
  proof (cases "backtrack n (Match r # Progress (length s) # k) s")
    case None
    with 11 show ?thesis by simp
  next
    case (Some x)
    show ?thesis
    proof (cases x)
      case Failure
      with Some 11 show ?thesis by (subst accepts_Opt) (auto simp del: accepts.simps)
    next
      case (Matched t)
      with Some 11 show ?thesis by (subst accepts_Opt) (auto simp del: accepts.simps)
    qed
  qed
qed

text \<open>Every run of the matcher returns: each step shortens the input or lightens the frames.\<close>

lemma either_branch:
  assumes "backtrack n1 k1 s = Some res1" and "backtrack n2 k2 s = Some res2"
  shows "\<exists>res. (case backtrack (n1 + n2) k1 s of
                   None \<Rightarrow> None
                 | Some (Matched t) \<Rightarrow> Some (Matched t)
                 | Some Failure \<Rightarrow> backtrack (n1 + n2) k2 s) = Some res"
proof -
  have 1: "backtrack (n1 + n2) k1 s = Some res1" using assms(1) by (rule backtrack_mono)
  have "backtrack (n2 + n1) k2 s = Some res2" using assms(2) by (rule backtrack_mono)
  then have 2: "backtrack (n1 + n2) k2 s = Some res2" by (simp add: add.commute)
  show ?thesis by (cases res1) (simp_all add: 1 2)
qed

lemma wf_lex_nat: "wf (less_than <*lex*> less_than)"
  by (rule wf_lex_prod) simp_all

lemma backtrack_returns_aux:
  "\<forall>k s. x = (length s, pending k (length s)) \<longrightarrow> (\<exists>n res. backtrack n k s = Some res)"
proof (induction x rule: wf_induct_rule [OF wf_lex_nat])
  case (1 x)
  show ?case
  proof (intro allI impI)
    fix k :: "frame list" and s :: jsstring
    assume x: "x = (length s, pending k (length s))"
    have shorter: "\<exists>n res. backtrack n k' s' = Some res" if "length s' < length s" for k' s'
    proof -
      have "((length s', pending k' (length s')), x) \<in> less_than <*lex*> less_than"
        using that x by simp
      from 1 [OF this] show ?thesis by blast
    qed
    have lighter: "\<exists>n res. backtrack n k' s = Some res"
      if "pending k' (length s) < pending k (length s)" for k'
    proof -
      have "((length s, pending k' (length s)), x) \<in> less_than <*lex*> less_than"
        using that x by simp
      from 1 [OF this] show ?thesis by blast
    qed
    show "\<exists>n res. backtrack n k s = Some res"
    proof (cases k)
      case Nil
      then have "backtrack (Suc 0) k s = Some (Matched s)" by simp
      then show ?thesis by blast
    next
      case (Cons f k')
      show ?thesis
      proof (cases f)
        case (Progress l)
        show ?thesis
        proof (cases "length s = l")
          case True
          with Cons Progress have "backtrack (Suc 0) k s = Some Failure" by simp
          then show ?thesis by blast
        next
          case False
          with Cons Progress have "pending k' (length s) < pending k (length s)" by simp
          from lighter [OF this] obtain n res where "backtrack n k' s = Some res" by blast
          with Cons Progress False have "backtrack (Suc n) k s = Some res" by simp
          then show ?thesis by blast
        qed
      next
        case (Match r)
        show ?thesis
        proof (cases r)
          case Fail
          with Cons Match have "backtrack (Suc 0) k s = Some Failure" by simp
          then show ?thesis by blast
        next
          case Empty
          with Cons Match have "pending k' (length s) < pending k (length s)" by simp
          from lighter [OF this] obtain n res where "backtrack n k' s = Some res" by blast
          with Cons Match Empty have "backtrack (Suc n) k s = Some res" by simp
          then show ?thesis by blast
        next
          case (Atom a)
          show ?thesis
          proof (cases s)
            case Nil
            with Cons Match Atom have "backtrack (Suc 0) k s = Some Failure" by simp
            then show ?thesis by blast
          next
            case (Cons u us)
            show ?thesis
            proof (cases "atom_matches a u")
              case True
              have "length us < length s" using Cons by simp
              from shorter [OF this] obtain n res where "backtrack n k' us = Some res" by blast
              with \<open>k = f # k'\<close> Match Atom Cons True have "backtrack (Suc n) k s = Some res"
                by simp
              then show ?thesis by blast
            next
              case False
              with \<open>k = f # k'\<close> Match Atom Cons have "backtrack (Suc 0) k s = Some Failure"
                by simp
              then show ?thesis by blast
            qed
          qed
        next
          case (Seq r1 r2)
          with Cons Match
          have "pending (Match r1 # Match r2 # k') (length s) < pending k (length s)" by simp
          from lighter [OF this] obtain n res
            where "backtrack n (Match r1 # Match r2 # k') s = Some res" by blast
          with Cons Match Seq have "backtrack (Suc n) k s = Some res" by simp
          then show ?thesis by blast
        next
          case (Alt r1 r2)
          with Cons Match
          have "pending (Match r1 # k') (length s) < pending k (length s)"
            and "pending (Match r2 # k') (length s) < pending k (length s)" by simp_all
          then obtain n1 res1 n2 res2
            where "backtrack n1 (Match r1 # k') s = Some res1"
              and "backtrack n2 (Match r2 # k') s = Some res2"
            using lighter by blast
          from either_branch [OF this] obtain res where
            "(case backtrack (n1 + n2) (Match r1 # k') s of
                None \<Rightarrow> None
              | Some (Matched t) \<Rightarrow> Some (Matched t)
              | Some Failure \<Rightarrow> backtrack (n1 + n2) (Match r2 # k') s) = Some res" by blast
          with Cons Match Alt have "backtrack (Suc (n1 + n2)) k s = Some res" by simp
          then show ?thesis by blast
        next
          case (Star r')
          with Cons Match
          have "pending (Match r' # Progress (length s) # Match (Star r') # k') (length s)
                  < pending k (length s)"
            and "pending k' (length s) < pending k (length s)" by simp_all
          then obtain n1 res1 n2 res2
            where "backtrack n1 (Match r' # Progress (length s) # Match (Star r') # k') s = Some res1"
              and "backtrack n2 k' s = Some res2"
            using lighter by blast
          from either_branch [OF this] obtain res where
            "(case backtrack (n1 + n2) (Match r' # Progress (length s) # Match (Star r') # k') s of
                None \<Rightarrow> None
              | Some (Matched t) \<Rightarrow> Some (Matched t)
              | Some Failure \<Rightarrow> backtrack (n1 + n2) k' s) = Some res" by blast
          with Cons Match Star have "backtrack (Suc (n1 + n2)) k s = Some res" by simp
          then show ?thesis by blast
        next
          case (Plus r')
          with Cons Match
          have "pending (Match r' # Match (Star r') # k') (length s) < pending k (length s)"
            by simp
          from lighter [OF this] obtain n res
            where "backtrack n (Match r' # Match (Star r') # k') s = Some res" by blast
          with Cons Match Plus have "backtrack (Suc n) k s = Some res" by simp
          then show ?thesis by blast
        next
          case (Opt r')
          with Cons Match
          have "pending (Match r' # Progress (length s) # k') (length s) < pending k (length s)"
            and "pending k' (length s) < pending k (length s)" by simp_all
          then obtain n1 res1 n2 res2
            where "backtrack n1 (Match r' # Progress (length s) # k') s = Some res1"
              and "backtrack n2 k' s = Some res2"
            using lighter by blast
          from either_branch [OF this] obtain res where
            "(case backtrack (n1 + n2) (Match r' # Progress (length s) # k') s of
                None \<Rightarrow> None
              | Some (Matched t) \<Rightarrow> Some (Matched t)
              | Some Failure \<Rightarrow> backtrack (n1 + n2) k' s) = Some res" by blast
          with Cons Match Opt have "backtrack (Suc (n1 + n2)) k s = Some res" by simp
          then show ?thesis by blast
        qed
      qed
    qed
  qed
qed

lemma backtrack_returns: "\<exists>n res. backtrack n k s = Some res"
  using backtrack_returns_aux by blast

text \<open>The search, the method \<^verbatim>\<open>test\<close> and the call on a heap.\<close>

lemma search_mono: "search n r y s = Some res \<Longrightarrow> search (n + m) r y s = Some res"
proof (induction s)
  case Nil
  then show ?case by (simp add: backtrack_mono)
next
  case (Cons u us)
  show ?case
  proof (cases "backtrack n [Match r] (u # us)")
    case None
    with Cons.prems show ?thesis by simp
  next
    case (Some x)
    then have "backtrack (n + m) [Match r] (u # us) = Some x" by (rule backtrack_mono)
    with Some Cons show ?thesis by (auto split: match_result.splits if_splits)
  qed
qed

lemma accepts_single: "accepts [Match r] s = match_here r s"
  by (simp add: match_here_iff)

lemma search_sound: "search n r False s = Some res \<Longrightarrow> (res \<noteq> Failure) = test r s"
proof (induction s)
  case Nil
  then have "backtrack n [Match r] [] = Some res" by simp
  from backtrack_sound [OF this] show ?case by (simp only: accepts_single match_here.simps test.simps)
next
  case (Cons u us)
  show ?case
  proof (cases "backtrack n [Match r] (u # us)")
    case None
    with Cons.prems show ?thesis by simp
  next
    case (Some x)
    from backtrack_sound [OF Some] have m: "(x \<noteq> Failure) = match_here r (u # us)"
      by (simp only: accepts_single)
    show ?thesis
    proof (cases x)
      case Failure
      with Some Cons.prems have "search n r False us = Some res" by simp
      then have "(res \<noteq> Failure) = test r us" by (rule Cons.IH)
      with m Failure show ?thesis by simp
    next
      case (Matched t)
      with Some Cons.prems have "res = Matched t" by simp
      with m Matched show ?thesis by simp
    qed
  qed
qed

lemma search_returns: "\<exists>n res. search n r y s = Some res"
proof (induction s)
  case Nil
  from backtrack_returns [of "[Match r]" "[]"] show ?case by simp
next
  case (Cons u us)
  from backtrack_returns obtain n1 x where 1: "backtrack n1 [Match r] (u # us) = Some x" by blast
  from Cons obtain n2 res where 2: "search n2 r y us = Some res" by blast
  have a: "backtrack (n1 + n2) [Match r] (u # us) = Some x" using 1 by (rule backtrack_mono)
  have "search (n2 + n1) r y us = Some res" using 2 by (rule search_mono)
  then have b: "search (n1 + n2) r y us = Some res" by (simp add: add.commute)
  have "\<exists>res'. search (n1 + n2) r y (u # us) = Some res'"
    using b by (cases x) (auto simp: a)
  then show ?case by blast
qed

lemma regexp_test_plain:
  assumes "a < length h"
    and "h ! a = \<lparr>source = r, global = False, sticky = False, lastIndex = i\<rparr>"
  shows "regexp_test n h a s =
     (case search n r False s of
        None \<Rightarrow> OutOfFuel
      | Some res \<Rightarrow> Returns (res \<noteq> Failure, h))"
  using assms
  by (auto simp: regexp_test_def Let_def split: option.splits match_result.splits)

lemma regexp_test_plain_sound:
  assumes "a < length h"
    and "h ! a = \<lparr>source = r, global = False, sticky = False, lastIndex = i\<rparr>"
    and "regexp_test n h a s = Returns (b, h')"
  shows "b = test r s \<and> h' = h"
proof (cases "search n r False s")
  case None
  with assms show ?thesis by (simp add: regexp_test_plain)
next
  case (Some res)
  with assms have "b = (res \<noteq> Failure)" and "h' = h" by (simp_all add: regexp_test_plain)
  with search_sound [OF Some] show ?thesis by simp
qed

lemma regexp_test_plain_returns:
  assumes "a < length h"
    and "h ! a = \<lparr>source = r, global = False, sticky = False, lastIndex = i\<rparr>"
    and "search n r False s = Some res"
  shows "regexp_test (n + m) h a s = Returns (test r s, h)"
proof -
  have "search (n + m) r False s = Some res" using assms(3) by (rule search_mono)
  with search_sound [OF assms(3)] assms(1,2) show ?thesis by (simp add: regexp_test_plain)
qed

lemma filter_matching_sound:
  assumes "list_all2 (holds_literal h) es ps"
    and "filter_matching n h es cmd = Returns (ms, h')"
  shows "h' = h \<and>
     map (\<lambda>p. \<lparr>risk = risk p, reason = reason p\<rparr>) ms =
     map (\<lambda>p. \<lparr>risk = risk p, reason = reason p\<rparr>) (filter (\<lambda>p. test (pattern p) cmd) ps)"
  using assms
proof (induction es ps arbitrary: ms rule: list_all2_induct)
  case Nil
  then show ?case by simp
next
  case (Cons e es p ps)
  from Cons.hyps(1) have e: "pattern_ref e < length h"
    "h ! pattern_ref e = \<lparr>source = pattern p, global = False, sticky = False, lastIndex = 0\<rparr>"
    "risk e = risk p" "reason e = reason p"
    by (simp_all add: holds_literal_def)
  from Cons.prems obtain b h1 where t: "regexp_test n h (pattern_ref e) cmd = Returns (b, h1)"
    by (auto split: outcome.splits)
  from regexp_test_plain_sound [OF e(1,2) t] have b: "b = test (pattern p) cmd" and h1: "h1 = h"
    by simp_all
  from Cons.prems t h1 obtain qs where q: "filter_matching n h es cmd = Returns (qs, h')"
    and ms: "ms = (if b then e # qs else qs)"
    by (auto split: outcome.splits)
  from Cons.IH [OF q] ms b e(3,4) show ?case by simp
qed

lemma filter_matching_no_TypeError:
  assumes "list_all2 (holds_literal h) es ps"
  shows "filter_matching n h es cmd \<noteq> TypeError"
  using assms
proof (induction es ps rule: list_all2_induct)
  case Nil
  then show ?case by simp
next
  case (Cons e es p ps)
  from Cons.hyps(1) have e: "pattern_ref e < length h"
    "h ! pattern_ref e = \<lparr>source = pattern p, global = False, sticky = False, lastIndex = 0\<rparr>"
    by (simp_all add: holds_literal_def)
  show ?case
  proof (cases "search n (pattern p) False cmd")
    case None
    with e show ?thesis by (simp add: regexp_test_plain)
  next
    case (Some res)
    with e Cons.IH show ?thesis
      by (simp add: regexp_test_plain split: outcome.splits)
  qed
qed

lemma filter_matching_returns:
  "\<exists>N. \<forall>m h es. list_all2 (holds_literal h) es ps \<longrightarrow>
     (\<exists>ms. filter_matching (N + m) h es cmd = Returns (ms, h))"
proof (induction ps)
  case Nil
  show ?case by simp
next
  case (Cons p ps)
  then obtain N2 where N2: "\<And>m h es. list_all2 (holds_literal h) es ps \<Longrightarrow>
     \<exists>ms. filter_matching (N2 + m) h es cmd = Returns (ms, h)" by blast
  from search_returns obtain N1 res where N1: "search N1 (pattern p) False cmd = Some res"
    by blast
  have "\<exists>ms. filter_matching (N1 + N2 + m) h es' cmd = Returns (ms, h)"
    if "list_all2 (holds_literal h) es' (p # ps)" for m h es'
  proof -
    from that obtain e es where es': "es' = e # es" and e: "holds_literal h e p"
      and es: "list_all2 (holds_literal h) es ps"
      by (auto simp: list_all2_Cons2)
    from e have r: "pattern_ref e < length h"
      "h ! pattern_ref e = \<lparr>source = pattern p, global = False, sticky = False, lastIndex = 0\<rparr>"
      by (simp_all add: holds_literal_def)
    have "regexp_test (N1 + (N2 + m)) h (pattern_ref e) cmd = Returns (test (pattern p) cmd, h)"
      using r N1 by (rule regexp_test_plain_returns)
    then have 1: "regexp_test (N1 + N2 + m) h (pattern_ref e) cmd = Returns (test (pattern p) cmd, h)"
      by (simp add: add.assoc)
    from N2 [OF es, of "N1 + m"] obtain qs
      where "filter_matching (N2 + (N1 + m)) h es cmd = Returns (qs, h)" by blast
    then have 2: "filter_matching (N1 + N2 + m) h es cmd = Returns (qs, h)"
      by (simp add: add.commute add.left_commute)
    show ?thesis by (simp add: es' 1 2)
  qed
  then show ?case by blast
qed

lemma alloc_patterns_holds:
  assumes "alloc_patterns ps h = (es, h')"
  shows "list_all2 (holds_literal h') es ps \<and> (\<exists>ext. h' = h @ ext \<and> length ext = length ps)"
  using assms
proof (induction ps arbitrary: h es)
  case Nil
  then show ?case by simp
next
  case (Cons p ps)
  define obj where "obj = \<lparr>source = pattern p, global = False, sticky = False, lastIndex = 0\<rparr>"
  from Cons.prems obtain es1 where a: "alloc_patterns ps (h @ [obj]) = (es1, h')"
    and es: "es = \<lparr>risk = risk p, reason = reason p, pattern_ref = length h\<rparr> # es1"
    by (auto simp: new_regexp_def obj_def split: prod.splits)
  from Cons.IH [OF a] obtain ext where l: "list_all2 (holds_literal h') es1 ps"
    and h': "h' = (h @ [obj]) @ ext" and n: "length ext = length ps" by blast
  have "holds_literal h' \<lparr>risk = risk p, reason = reason p, pattern_ref = length h\<rparr> p"
    by (simp add: holds_literal_def h' obj_def nth_append)
  with l es have "list_all2 (holds_literal h') es (p # ps)" by simp
  moreover have "h' = h @ (obj # ext) \<and> length (obj # ext) = length (p # ps)"
    using h' n by simp
  ultimately show ?case by blast
qed

lemma dangerCheck_build:
  "dangerCheck cmd =
     build_result cmd (map (\<lambda>p. \<lparr>risk = risk p, reason = reason p\<rparr>)
       (filter (\<lambda>p. test (pattern p) cmd) dangerousPatterns))"
  by (simp add: dangerCheck_def build_result_def Let_def)

lemma execute_sound:
  assumes "execute n h cmd = Returns (r, h')"
  shows "r = dangerCheck cmd \<and> (\<exists>ext. h' = h @ ext \<and> length ext = length dangerousPatterns)"
proof -
  obtain es h1 where a: "alloc_patterns dangerousPatterns h = (es, h1)" by (cases "alloc_patterns dangerousPatterns h")
  from alloc_patterns_holds [OF a] obtain ext where l: "list_all2 (holds_literal h1) es dangerousPatterns"
    and h1: "h1 = h @ ext" "length ext = length dangerousPatterns" by blast
  from assms a obtain ms where f: "filter_matching n h1 es cmd = Returns (ms, h')"
    and r: "r = build_result cmd (map (\<lambda>p. \<lparr>risk = risk p, reason = reason p\<rparr>) ms)"
    by (auto simp: execute_def split: outcome.splits)
  from filter_matching_sound [OF l f] r h1 show ?thesis
    by (auto simp: dangerCheck_build)
qed

lemma execute_no_TypeError: "execute n h cmd \<noteq> TypeError"
proof -
  obtain es h1 where a: "alloc_patterns dangerousPatterns h = (es, h1)" by (cases "alloc_patterns dangerousPatterns h")
  from alloc_patterns_holds [OF a] have "list_all2 (holds_literal h1) es dangerousPatterns" by blast
  from filter_matching_no_TypeError [OF this] a show ?thesis
    by (auto simp: execute_def split: outcome.splits)
qed

lemma execute_returns:
  "\<exists>N. \<forall>m h. \<exists>h'. execute (N + m) h cmd = Returns (dangerCheck cmd, h')"
proof -
  from filter_matching_returns obtain N where N: "\<And>m h es. list_all2 (holds_literal h) es dangerousPatterns \<Longrightarrow>
     \<exists>ms. filter_matching (N + m) h es cmd = Returns (ms, h)" by blast
  have "\<exists>h'. execute (N + m) h cmd = Returns (dangerCheck cmd, h')" for m h
  proof -
    obtain es h1 where a: "alloc_patterns dangerousPatterns h = (es, h1)" by (cases "alloc_patterns dangerousPatterns h")
    from alloc_patterns_holds [OF a] have "list_all2 (holds_literal h1) es dangerousPatterns" by blast
    from N [OF this] obtain ms where "filter_matching (N + m) h1 es cmd = Returns (ms, h1)" by blast
    with a obtain r h' where e: "execute (N + m) h cmd = Returns (r, h')"
      by (simp add: execute_def)
    from execute_sound [OF e] e show ?thesis by auto
  qed
  then show ?thesis by blast
qed

lemma invocations_sound:
  "invocations n h cs = Returns (rs, h') \<Longrightarrow> rs = map dangerCheck cs"
proof (induction cs arbitrary: h rs)
  case Nil
  then show ?case by simp
next
  case (Cons c cs)
  from Cons.prems obtain r h1 rs1 where e: "execute n h c = Returns (r, h1)"
    and i: "invocations n h1 cs = Returns (rs1, h')" and rs: "rs = r # rs1"
    by (auto split: outcome.splits)
  from execute_sound [OF e] Cons.IH [OF i] rs show ?case by simp
qed

lemma invocations_returns:
  "\<exists>N. \<forall>m h. \<exists>h'. invocations (N + m) h cs = Returns (map dangerCheck cs, h')"
proof (induction cs)
  case Nil
  show ?case by simp
next
  case (Cons c cs)
  then obtain N2 where N2: "\<And>m h. \<exists>h'. invocations (N2 + m) h cs = Returns (map dangerCheck cs, h')"
    by blast
  from execute_returns obtain N1 where N1: "\<And>m h. \<exists>h'. execute (N1 + m) h c = Returns (dangerCheck c, h')"
    by blast
  have "\<exists>h'. invocations (N1 + N2 + m) h (c # cs) = Returns (map dangerCheck (c # cs), h')" for m h
  proof -
    from N1 [of "N2 + m" h] obtain h1 where "execute (N1 + (N2 + m)) h c = Returns (dangerCheck c, h1)"
      by blast
    then have 1: "execute (N1 + N2 + m) h c = Returns (dangerCheck c, h1)" by (simp add: add.assoc)
    from N2 [of "N1 + m" h1] obtain h2 where "invocations (N2 + (N1 + m)) h1 cs = Returns (map dangerCheck cs, h2)"
      by blast
    then have 2: "invocations (N1 + N2 + m) h1 cs = Returns (map dangerCheck cs, h2)"
      by (simp add: add.commute add.left_commute)
    show ?thesis by (simp add: 1 2)
  qed
  then show ?case by blast
qed

text \<open>
  With the flag g the same call on the same object answers differently the second time,
  since \<open>lastIndex\<close> is carried over; the literals of the table have no such flag.
\<close>

lemma global_flag_is_stateful:
  "regexp_test 40 [\<lparr>source = re_rm_rf, global = True, sticky = False, lastIndex = 0\<rparr>] 0
       (ascii ''sudo rm -rf /'') =
     Returns (True, [\<lparr>source = re_rm_rf, global = True, sticky = False, lastIndex = 11\<rparr>])
   \<and> regexp_test 40 [\<lparr>source = re_rm_rf, global = True, sticky = False, lastIndex = 11\<rparr>] 0
       (ascii ''sudo rm -rf /'') =
     Returns (False, [\<lparr>source = re_rm_rf, global = True, sticky = False, lastIndex = 0\<rparr>])"
  by code_simp

lemma execute_examples:
  "execute 60 [] [] =
     Returns (dangerCheck [],
       map (\<lambda>p. \<lparr>source = pattern p, global = False, sticky = False, lastIndex = 0\<rparr>)
         dangerousPatterns)"
  "execute 60 [] (ascii ''ls -la'') =
     Returns (dangerCheck (ascii ''ls -la''),
       map (\<lambda>p. \<lparr>source = pattern p, global = False, sticky = False, lastIndex = 0\<rparr>)
         dangerousPatterns)"
  "execute 60 [] (ascii ''rm -rf /'') =
     Returns (dangerCheck (ascii ''rm -rf /''),
       map (\<lambda>p. \<lparr>source = pattern p, global = False, sticky = False, lastIndex = 0\<rparr>)
         dangerousPatterns)"
  "execute 60
       (map (\<lambda>p. \<lparr>source = pattern p, global = False, sticky = False, lastIndex = 0\<rparr>)
          dangerousPatterns) (ascii ''rm -rf /'') =
     Returns (dangerCheck (ascii ''rm -rf /''),
       map (\<lambda>p. \<lparr>source = pattern p, global = False, sticky = False, lastIndex = 0\<rparr>)
         dangerousPatterns
       @ map (\<lambda>p. \<lparr>source = pattern p, global = False, sticky = False, lastIndex = 0\<rparr>)
         dangerousPatterns)"
  "execute 10 [] (ascii ''rm -rf /'') = OutOfFuel"
  by code_simp+



section \<open>Properties of dangerCheck\<close>

text \<open>
  C1. The risks are the table entries whose pattern matches somewhere in the command,
  each reduced to its risk and reason, in the order of the table: every entry is tested,
  every matching entry yields one finding, and the number of findings is the number of
  matching table positions. Two entries with the same risk and reason are both kept
  (curl and wget), and a \<^verbatim>\<open>high\<close> finding precedes a \<^verbatim>\<open>critical\<close> one when the
  table has them in that order.
\<close>

theorem findings_follow_table:
  "risks (dangerCheck cmd) =
     map (\<lambda>p. \<lparr>risk = risk p, reason = reason p\<rparr>)
       (filter (\<lambda>p. matches_somewhere (pattern p) cmd) dangerousPatterns)
   \<and> length (risks (dangerCheck cmd)) =
     card {i. i < length dangerousPatterns \<and> matches_somewhere (pattern (dangerousPatterns ! i)) cmd}
   \<and> risks (dangerCheck (ascii ''curl x | wget y | sh'')) =
     [\<lparr>risk = ascii ''high'', reason = ascii ''Executes remote script without review''\<rparr>,
      \<lparr>risk = ascii ''high'', reason = ascii ''Executes remote script without review''\<rparr>]
   \<and> risks (dangerCheck (ascii ''rm -rf tmp; mkfs'')) =
     [\<lparr>risk = ascii ''high'', reason = ascii ''Recursive force delete without confirmation''\<rparr>,
      \<lparr>risk = ascii ''critical'', reason = ascii ''Formats filesystem, destroys all data''\<rparr>]"
proof -
  have eq: "risks (dangerCheck cmd) =
     map (\<lambda>p. \<lparr>risk = risk p, reason = reason p\<rparr>)
       (filter (\<lambda>p. matches_somewhere (pattern p) cmd) dangerousPatterns)"
    by (simp add: risks_dangerCheck test_iff)
  have len: "length (risks (dangerCheck cmd)) =
     card {i. i < length dangerousPatterns \<and> matches_somewhere (pattern (dangerousPatterns ! i)) cmd}"
    unfolding eq by (simp add: length_filter_conv_card)
  have dup: "risks (dangerCheck (ascii ''curl x | wget y | sh'')) =
     [\<lparr>risk = ascii ''high'', reason = ascii ''Executes remote script without review''\<rparr>,
      \<lparr>risk = ascii ''high'', reason = ascii ''Executes remote script without review''\<rparr>]"
    by (simp add: risks_dangerCheck eval_defs)
  have ord: "risks (dangerCheck (ascii ''rm -rf tmp; mkfs'')) =
     [\<lparr>risk = ascii ''high'', reason = ascii ''Recursive force delete without confirmation''\<rparr>,
      \<lparr>risk = ascii ''critical'', reason = ascii ''Formats filesystem, destroys all data''\<rparr>]"
    by (simp add: risks_dangerCheck eval_defs)
  from eq len dup ord show ?thesis by blast
qed

text \<open>
  C2. On \<^verbatim>\<open>rm -rf /\<close> the tool returns exactly two findings, the root delete
  (critical) and then the recursive force delete (high); the first two patterns of the
  table match and the other nine do not.
\<close>

theorem rm_rf_root_findings:
  "risks (dangerCheck (ascii ''rm -rf /'')) =
     [\<lparr>risk = ascii ''critical'', reason = ascii ''Deletes root filesystem''\<rparr>,
      \<lparr>risk = ascii ''high'', reason = ascii ''Recursive force delete without confirmation''\<rparr>]
   \<and> map (\<lambda>p. test (pattern p) (ascii ''rm -rf /'')) dangerousPatterns =
     [True, True, False, False, False, False, False, False, False, False, False]"
  by (simp add: risks_dangerCheck eval_defs)

text \<open>
  C3 (as the code has it). Whenever the pattern \<^verbatim>\<open>/chmod\s+-R\s+777/\<close> matches the
  command, the risks contain the finding with risk \<^verbatim>\<open>high\<close> and reason
  \<^verbatim>\<open>Removes all file permissions security\<close>, and every finding with that reason has
  risk \<^verbatim>\<open>high\<close>.
\<close>

theorem chmod_finding:
  assumes "test re_chmod cmd"
  shows "\<lparr>risk = ascii ''high'', reason = ascii ''Removes all file permissions security''\<rparr>
       \<in> set (risks (dangerCheck cmd))
     \<and> (\<forall>f \<in> set (risks (dangerCheck cmd)).
          reason f = ascii ''Removes all file permissions security'' \<longrightarrow> risk f = ascii ''high'')"
proof -
  have "matches_somewhere (pattern (entry re_chmod ''high'' ''Removes all file permissions security'')) cmd"
    using assms by (simp add: test_iff entry_def)
  from finding_in_risks [OF in_table(2) this]
  have 1: "\<lparr>risk = ascii ''high'', reason = ascii ''Removes all file permissions security''\<rparr>
       \<in> set (risks (dangerCheck cmd))"
    by (simp add: entry_def)
  have 2: "risk f = ascii ''high''"
    if "f \<in> set (risks (dangerCheck cmd))"
      and "reason f = ascii ''Removes all file permissions security''" for f
  proof -
    from that(1) obtain p where p: "p \<in> set dangerousPatterns"
      and f: "f = \<lparr>risk = risk p, reason = reason p\<rparr>"
      by (auto simp: risks_dangerCheck)
    with that(2) have "reason p = ascii ''Removes all file permissions security''" by simp
    with p have "risk p = ascii ''high''" by (rule reason_chmod_only)
    with f show ?thesis by simp
  qed
  from 1 2 show ?thesis by blast
qed

theorem chmod_finding_witness:
  "test re_chmod (ascii ''chmod -R 777 /'')
   \<and> \<lparr>risk = ascii ''high'', reason = ascii ''Removes all file permissions security''\<rparr>
       \<in> set (risks (dangerCheck (ascii ''chmod -R 777 /'')))"
  using chmod_finding [OF chmod_example_test] chmod_example_test by blast

text \<open>
  C3 as stated fails: on \<^verbatim>\<open>chmod -R 777 /\<close> the pattern matches and the only finding
  has the reason \<^verbatim>\<open>Removes all file permissions security\<close>; no finding has the reason
  \<^verbatim>\<open>Removes all file permission security\<close>.
\<close>

theorem chmod_reason_counterexample:
  "test re_chmod (ascii ''chmod -R 777 /'')
   \<and> risks (dangerCheck (ascii ''chmod -R 777 /'')) =
       [\<lparr>risk = ascii ''high'', reason = ascii ''Removes all file permissions security''\<rparr>]
   \<and> ascii ''Removes all file permission security''
       \<notin> reason ` set (risks (dangerCheck (ascii ''chmod -R 777 /'')))"
proof -
  have "ascii ''Removes all file permission security''
      \<noteq> ascii ''Removes all file permissions security''"
    by (simp add: ascii_def)
  then show ?thesis
    using chmod_example_test by (simp add: chmod_example_risks)
qed

text \<open>
  C4. When the risks are not empty, the instruction is the warning line that restates the
  command, an empty line, the line \<^verbatim>\<open>Risks found:\<close>, one line
  \<^verbatim>\<open>- [RISK] reason\<close> per finding in the order of the findings with the risk in upper
  case, an empty line, \<^verbatim>\<open>Provide:\<close> and the four section headers. When the risks are
  empty, it is the acknowledgment line that restates the command, an empty line,
  \<^verbatim>\<open>However, always:\<close> and the four reminders.
\<close>

theorem instruction_text:
  "instruction (dangerCheck cmd) =
     (if risks (dangerCheck cmd) \<noteq> [] then danger_guidance cmd (risks (dangerCheck cmd))
      else safe_guidance cmd)
   \<and> (\<forall>f \<in> set (risks (dangerCheck cmd)).
        risk_label (risk f) = toUpperCase (risk f)
        \<and> risk_label (risk f) \<in> {ascii ''CRITICAL'', ascii ''HIGH'', ascii ''MEDIUM''})"
  using instruction_dangerCheck [of cmd] risk_label_range [of _ cmd]
    risk_label_upper risks_levels [of _ cmd]
  by (metis (no_types, lifting))

theorem instruction_text_witness:
  "instruction (dangerCheck (ascii ''rm -rf /'')) =
     warning_sign @ ascii '' DANGER DETECTED in command: rm -rf /\<newline>\<newline>Risks found:\<newline>- [CRITICAL] Deletes root filesystem\<newline>- [HIGH] Recursive force delete without confirmation\<newline>\<newline>Provide:\<newline>1. **Why It's Dangerous**: Detailed explanation of what could go wrong\<newline>2. **Safer Alternative**: A safer way to accomplish the same goal\<newline>3. **If You Must Proceed**: Precautions and backup steps\<newline>4. **Recovery Options**: What to do if something goes wrong''
   \<and> instruction (dangerCheck (ascii ''ls -la'')) =
     check_mark @ ascii '' No obvious dangers detected in: ls -la\<newline>\<newline>However, always:\<newline>1. Understand what a command does before running it\<newline>2. Test with dry-run flags when available\<newline>3. Have backups for important data\<newline>4. Use sudo only when necessary''"
proof -
  have a: "danger_guidance (ascii ''rm -rf /'')
     [\<lparr>risk = ascii ''critical'', reason = ascii ''Deletes root filesystem''\<rparr>,
      \<lparr>risk = ascii ''high'', reason = ascii ''Recursive force delete without confirmation''\<rparr>]
    = warning_sign @ ascii '' DANGER DETECTED in command: rm -rf /\<newline>\<newline>Risks found:\<newline>- [CRITICAL] Deletes root filesystem\<newline>- [HIGH] Recursive force delete without confirmation\<newline>\<newline>Provide:\<newline>1. **Why It's Dangerous**: Detailed explanation of what could go wrong\<newline>2. **Safer Alternative**: A safer way to accomplish the same goal\<newline>3. **If You Must Proceed**: Precautions and backup steps\<newline>4. **Recovery Options**: What to do if something goes wrong''"
    by (simp add: danger_guidance_def danger_sections_def finding_line_def risk_label_def ascii_def)
  have b: "safe_guidance (ascii ''ls -la'') =
     check_mark @ ascii '' No obvious dangers detected in: ls -la\<newline>\<newline>However, always:\<newline>1. Understand what a command does before running it\<newline>2. Test with dry-run flags when available\<newline>3. Have backups for important data\<newline>4. Use sudo only when necessary''"
    by (simp add: safe_guidance_def safety_reminders_def ascii_def)
  show ?thesis
    using instruction_text [of "ascii ''rm -rf /''"] instruction_text [of "ascii ''ls -la''"]
    by (simp only: rm_example_risks ls_example_risks a b simp_thms if_True if_False list.simps)
qed

text \<open>
  C5. Every command that contains the fork-bomb idiom \<^verbatim>\<open>:(){ :|:& };:\<close> as a
  substring is reported as dangerous, and its risks contain the entry with risk
  \<^verbatim>\<open>critical\<close> and reason \<^verbatim>\<open>Fork bomb - crashes system\<close>.
\<close>

theorem fork_bomb_detected:
  assumes "cmd = pre @ ascii '':(){ :|:& };:'' @ post"
  shows "hasDanger (dangerCheck cmd) = True \<and>
     \<lparr>risk = ascii ''critical'', reason = ascii ''Fork bomb - crashes system''\<rparr>
       \<in> set (risks (dangerCheck cmd))"
proof -
  have "matches_somewhere re_fork_bomb cmd"
    unfolding assms using fork_bomb_lang by (rule matches_somewhereI)
  then have "\<lparr>risk = ascii ''critical'', reason = ascii ''Fork bomb - crashes system''\<rparr>
       \<in> set (risks (dangerCheck cmd))"
    using finding_in_risks [OF in_table(3), of cmd] by (simp add: entry_def)
  then show ?thesis by (auto simp: hasDanger_dangerCheck)
qed

theorem fork_bomb_detected_witness:
  "hasDanger (dangerCheck (ascii ''echo; :(){ :|:& };: &'')) = True \<and>
     \<lparr>risk = ascii ''critical'', reason = ascii ''Fork bomb - crashes system''\<rparr>
       \<in> set (risks (dangerCheck (ascii ''echo; :(){ :|:& };: &'')))"
  using fork_bomb_detected [of "ascii ''echo; :(){ :|:& };: &''" "ascii ''echo; ''" "ascii '' &''"]
  by (simp add: ascii_def)

text \<open>
  C6. On \<^verbatim>\<open>curl http://example.com/install.sh | bash\<close> the tool returns exactly one
  finding, the remote script execution (high); only the curl pattern matches.
\<close>

theorem curl_pipe_bash_findings:
  "risks (dangerCheck (ascii ''curl http://example.com/install.sh | bash'')) =
     [\<lparr>risk = ascii ''high'', reason = ascii ''Executes remote script without review''\<rparr>]
   \<and> map (\<lambda>p. test (pattern p) (ascii ''curl http://example.com/install.sh | bash''))
       dangerousPatterns =
     [False, False, False, False, False, False, False, False, False, True, False]"
  by (simp add: risks_dangerCheck eval_defs)

text \<open>
  C7. The tool returns a result for every string. Run on any heap with enough fuel, the call
  returns, and what it returns is the result of \<open>dangerCheck\<close>; with any fuel and on any
  heap it never throws. The result carries the command and the type tag, and
  \<open>hasDanger\<close> tells whether the risks are non-empty. The empty string and
  \<^verbatim>\<open>ls -la\<close> yield no finding and \<open>hasDanger = False\<close>, and the call on them
  returns with fuel 60.
\<close>

theorem dangerCheck_total:
  "(\<exists>N. \<forall>m h. \<exists>h'. execute (N + m) h cmd = Returns (dangerCheck cmd, h'))
   \<and> (\<forall>n h. execute n h cmd \<noteq> TypeError)
   \<and> type (dangerCheck cmd) = ascii ''danger_check'' \<and> command (dangerCheck cmd) = cmd
   \<and> hasDanger (dangerCheck cmd) = (risks (dangerCheck cmd) \<noteq> [])
   \<and> hasDanger (dangerCheck []) = False \<and> risks (dangerCheck []) = []
   \<and> hasDanger (dangerCheck (ascii ''ls -la'')) = False
   \<and> risks (dangerCheck (ascii ''ls -la'')) = []
   \<and> (\<exists>h'. execute 60 [] [] = Returns (dangerCheck [], h'))
   \<and> (\<exists>h'. execute 60 [] (ascii ''ls -la'') = Returns (dangerCheck (ascii ''ls -la''), h'))"
proof -
  have e: "risks (dangerCheck []) = []"
    by (simp add: risks_dangerCheck eval_defs)
  have g: "type (dangerCheck cmd) = ascii ''danger_check'' \<and> command (dangerCheck cmd) = cmd"
    by (simp add: dangerCheck_def Let_def)
  have x: "\<exists>h'. execute 60 [] [] = Returns (dangerCheck [], h')"
    "\<exists>h'. execute 60 [] (ascii ''ls -la'') = Returns (dangerCheck (ascii ''ls -la''), h')"
    using execute_examples(1,2) by blast+
  from e ls_example_risks g x execute_returns [of cmd] execute_no_TypeError [of _ _ cmd]
  show ?thesis by (simp add: hasDanger_dangerCheck)
qed

text \<open>
  C8. Two invocations with the same command return the same result, whatever heaps they
  run on, that is whatever the calls before them have left: the same risks, the same
  \<open>hasDanger\<close> and the same instruction. A call leaves every object that existed before
  it as it was. In any sequence of invocations, each running on the heap left by the ones
  before it, two positions with the same command hold the same result. With enough fuel
  the invocations return.
\<close>

theorem dangerCheck_deterministic:
  assumes "c1 = c2"
  shows "(\<forall>n1 n2 h1 h2 r1 r2 g1 g2.
           execute n1 h1 c1 = Returns (r1, g1) \<and> execute n2 h2 c2 = Returns (r2, g2)
           \<longrightarrow> r1 = r2 \<and> risks r1 = risks r2 \<and> hasDanger r1 = hasDanger r2
               \<and> instruction r1 = instruction r2
               \<and> take (length h1) g1 = h1 \<and> take (length h2) g2 = h2)
     \<and> (\<exists>N. \<forall>m h1 h2. \<exists>r g1 g2.
           execute (N + m) h1 c1 = Returns (r, g1) \<and> execute (N + m) h2 c2 = Returns (r, g2))
     \<and> (\<forall>n h cs rs g i j.
           invocations n h cs = Returns (rs, g) \<and> i < length cs \<and> j < length cs
           \<and> cs ! i = c1 \<and> cs ! j = c2 \<longrightarrow> rs ! i = rs ! j)
     \<and> (\<forall>cs. \<exists>N. \<forall>m h. \<exists>rs g. invocations (N + m) h cs = Returns (rs, g))"
proof -
  have 1: "\<forall>n1 n2 h1 h2 r1 r2 g1 g2.
           execute n1 h1 c1 = Returns (r1, g1) \<and> execute n2 h2 c2 = Returns (r2, g2)
           \<longrightarrow> r1 = r2 \<and> risks r1 = risks r2 \<and> hasDanger r1 = hasDanger r2
               \<and> instruction r1 = instruction r2
               \<and> take (length h1) g1 = h1 \<and> take (length h2) g2 = h2"
  proof (intro allI impI)
    fix n1 n2 h1 h2 r1 r2 g1 g2
    assume "execute n1 h1 c1 = Returns (r1, g1) \<and> execute n2 h2 c2 = Returns (r2, g2)"
    then have a: "execute n1 h1 c1 = Returns (r1, g1)" and b: "execute n2 h2 c2 = Returns (r2, g2)"
      by simp_all
    from execute_sound [OF a] obtain x where r1: "r1 = dangerCheck c1" and g1: "g1 = h1 @ x"
      by blast
    from execute_sound [OF b] obtain y where r2: "r2 = dangerCheck c2" and g2: "g2 = h2 @ y"
      by blast
    from r1 r2 g1 g2 assms
    show "r1 = r2 \<and> risks r1 = risks r2 \<and> hasDanger r1 = hasDanger r2
               \<and> instruction r1 = instruction r2
               \<and> take (length h1) g1 = h1 \<and> take (length h2) g2 = h2"
      by simp
  qed
  from execute_returns [of c1] obtain N
    where N: "\<And>m h. \<exists>h'. execute (N + m) h c1 = Returns (dangerCheck c1, h')" by blast
  have "\<exists>r g1 g2. execute (N + m) h1 c1 = Returns (r, g1) \<and> execute (N + m) h2 c2 = Returns (r, g2)"
    for m h1 h2
  proof -
    from N [of m h1] obtain g1 where "execute (N + m) h1 c1 = Returns (dangerCheck c1, g1)" by blast
    moreover from N [of m h2] assms obtain g2
      where "execute (N + m) h2 c2 = Returns (dangerCheck c1, g2)" by blast
    ultimately show ?thesis by blast
  qed
  then have 2: "\<exists>N. \<forall>m h1 h2. \<exists>r g1 g2.
           execute (N + m) h1 c1 = Returns (r, g1) \<and> execute (N + m) h2 c2 = Returns (r, g2)"
    by blast
  have 3: "\<forall>n h cs rs g i j.
           invocations n h cs = Returns (rs, g) \<and> i < length cs \<and> j < length cs
           \<and> cs ! i = c1 \<and> cs ! j = c2 \<longrightarrow> rs ! i = rs ! j"
  proof (intro allI impI)
    fix n h cs rs g i j
    assume h: "invocations n h cs = Returns (rs, g) \<and> i < length cs \<and> j < length cs
           \<and> cs ! i = c1 \<and> cs ! j = c2"
    then have "invocations n h cs = Returns (rs, g)" by simp
    then have "rs = map dangerCheck cs" by (rule invocations_sound)
    with h assms show "rs ! i = rs ! j" by simp
  qed
  have 4: "\<forall>cs. \<exists>N. \<forall>m h. \<exists>rs g. invocations (N + m) h cs = Returns (rs, g)"
  proof
    fix cs
    from invocations_returns [of cs] obtain N
      where "\<And>m h. \<exists>h'. invocations (N + m) h cs = Returns (map dangerCheck cs, h')" by blast
    then have "\<forall>m h. \<exists>rs g. invocations (N + m) h cs = Returns (rs, g)" by blast
    then show "\<exists>N. \<forall>m h. \<exists>rs g. invocations (N + m) h cs = Returns (rs, g)" ..
  qed
  show ?thesis
    apply (rule conjI, rule 1)
    apply (rule conjI, rule 2)
    apply (rule conjI, rule 3)
    apply (rule 4)
    done
qed

theorem dangerCheck_deterministic_witness:
  "ascii ''rm -rf /'' = [0x72, 0x6D, 0x20, 0x2D, 0x72, 0x66, 0x20, 0x2F]
   \<and> (\<exists>r g1 g2.
         execute 60 [] (ascii ''rm -rf /'') = Returns (r, g1)
         \<and> execute 60 g1 [0x72, 0x6D, 0x20, 0x2D, 0x72, 0x66, 0x20, 0x2F] = Returns (r, g2)
         \<and> take (length g1) g2 = g1)"
proof -
  have e: "ascii ''rm -rf /'' = [0x72, 0x6D, 0x20, 0x2D, 0x72, 0x66, 0x20, 0x2F]"
    by (simp add: ascii_def)
  note d = dangerCheck_deterministic [OF e, THEN conjunct1, rule_format]
  obtain r1 g1 where a: "execute 60 [] (ascii ''rm -rf /'') = Returns (r1, g1)"
    and g1: "g1 = map (\<lambda>p. \<lparr>source = pattern p, global = False, sticky = False, lastIndex = 0\<rparr>)
         dangerousPatterns"
    using execute_examples(3) by blast
  obtain r2 g2 where "execute 60 g1 (ascii ''rm -rf /'') = Returns (r2, g2)"
    unfolding g1 using execute_examples(4) by blast
  then have b: "execute 60 g1 [0x72, 0x6D, 0x20, 0x2D, 0x72, 0x66, 0x20, 0x2F] = Returns (r2, g2)"
    by (simp only: e)
  from d [OF conjI [OF a b]] have "r1 = r2" and "take (length g1) g2 = g1" by simp_all
  with a b have "\<exists>r g1 g2.
         execute 60 [] (ascii ''rm -rf /'') = Returns (r, g1)
         \<and> execute 60 g1 [0x72, 0x6D, 0x20, 0x2D, 0x72, 0x66, 0x20, 0x2F] = Returns (r, g2)
         \<and> take (length g1) g2 = g1" by blast
  with e show ?thesis by (intro conjI)
qed




text \<open>
  C10. No finding has the risk \<^verbatim>\<open>low\<close>: the risk of every finding is
  \<^verbatim>\<open>medium\<close>, \<^verbatim>\<open>high\<close> or \<^verbatim>\<open>critical\<close>, the only levels of the table.
\<close>

theorem no_low_risk:
  assumes "f \<in> set (risks (dangerCheck cmd))"
  shows "risk f \<in> {ascii ''medium'', ascii ''high'', ascii ''critical''}
     \<and> risk f \<noteq> ascii ''low''"
  using risks_levels [OF assms] levels_distinct by auto

theorem no_low_risk_witness:
  "\<lparr>risk = ascii ''high'', reason = ascii ''Removes all file permissions security''\<rparr>
      \<in> set (risks (dangerCheck (ascii ''chmod -R 777 /'')))
   \<and> ascii ''high'' \<in> {ascii ''medium'', ascii ''high'', ascii ''critical''}
   \<and> ascii ''high'' \<noteq> ascii ''low''"
proof -
  have m: "\<lparr>risk = ascii ''high'', reason = ascii ''Removes all file permissions security''\<rparr>
      \<in> set (risks (dangerCheck (ascii ''chmod -R 777 /'')))"
    by (simp add: chmod_example_risks)
  from no_low_risk [OF m] m show ?thesis by simp
qed

end
